theory Spec2Isabelle
  imports Main "HOL-Library.Char_ord" "HOL-Library.List_Lexorder"
begin

section \<open>The CEL reference compiler (Celc.py)\<close>

text \<open>
  A shallow embedding of the four stages of \<^verbatim>\<open>Celc.py\<close>: \<^verbatim>\<open>lex\<close>, the
  \<^verbatim>\<open>Parser\<close> class, \<^verbatim>\<open>semantic\<close> and \<^verbatim>\<open>emit\<close>/\<^verbatim>\<open>emit_stmt\<close>, and of
  the part of \<^verbatim>\<open>main\<close> that chains them.

  Python strings are modelled as \<open>string\<close>, so a character is a code point below 256.
  On that range \<^verbatim>\<open>\d\<close> matches the ASCII digits only, and the order of \<open>char\<close>
  (\<open>Char_ord\<close>) lifted to lists (\<open>List_Lexorder\<close>) is the order Python's
  \<^verbatim>\<open>sorted\<close> uses on \<^verbatim>\<open>str\<close>. Python's unbounded \<^verbatim>\<open>int\<close> is \<open>int\<close>.
  Every exception is a value of \<open>error\<close>, carrying the message the source builds.
\<close>

subsection \<open>Exceptions and string formatting\<close>

datatype error =
    SyntaxError string
  | ParseError string
  | SemanticError string
  | NotImplementedError string
  | ValueError
  | IndexError

definition digit_char :: "nat \<Rightarrow> char" where
  "digit_char d = ''0123456789'' ! d"

text \<open>\<^verbatim>\<open>str(n)\<close> for a non-negative integer: its decimal digits.\<close>

fun str_nat :: "nat \<Rightarrow> string" where
  "str_nat n = (if n < 10 then [digit_char n] else str_nat (n div 10) @ [digit_char (n mod 10)])"

declare str_nat.simps [simp del]

text \<open>\<^verbatim>\<open>f"{i}"\<close> for an integer.\<close>

definition str_int :: "int \<Rightarrow> string" where
  "str_int i = (if i < 0 then CHR ''-'' # str_nat (nat (- i)) else str_nat (nat i))"

text \<open>\<^verbatim>\<open>sep.join(xs)\<close>.\<close>

fun join :: "string \<Rightarrow> string list \<Rightarrow> string" where
  "join sep [] = []"
| "join sep [x] = x"
| "join sep (x # y # ys) = x @ sep @ join sep (y # ys)"

text \<open>
  \<^verbatim>\<open>repr\<close> of a one-character string, as \<^verbatim>\<open>{val!r}\<close> formats the offending
  character: quoted with \<^verbatim>\<open>'\<close> (with \<^verbatim>\<open>"\<close> when the character is \<^verbatim>\<open>'\<close>), the
  backslash doubled, tab and carriage return as escapes, and a code point that is not
  printable as \<^verbatim>\<open>\xhh\<close>.
\<close>

definition hex_char :: "nat \<Rightarrow> char" where
  "hex_char d = ''0123456789abcdef'' ! d"

definition printable :: "char \<Rightarrow> bool" where
  "printable c = (let n = (of_char c :: nat) in
     (32 \<le> n \<and> n < 127) \<or> (161 \<le> n \<and> n \<noteq> 173))"

definition repr_char :: "char \<Rightarrow> string" where
  "repr_char c =
    (if c = CHR 0x27 then [CHR 0x22, c, CHR 0x22]
     else [CHR 0x27] @
       (if c = CHR 0x5C then [c, c]
        else if c = CHR 0x09 then [CHR 0x5C, CHR ''t'']
        else if c = CHR 0x0A then [CHR 0x5C, CHR ''n'']
        else if c = CHR 0x0D then [CHR 0x5C, CHR ''r'']
        else if printable c then [c]
        else [CHR 0x5C, CHR ''x'', hex_char (of_char c div 16), hex_char (of_char c mod 16)])
       @ [CHR 0x27])"

subsection \<open>1. Lexer\<close>

datatype token = Token (tok_type: string) (tok_value: string) (tok_line: int) (tok_col: int)

definition newline :: char where
  "newline = CHR 0x0A"

definition is_digit :: "char \<Rightarrow> bool" where
  "is_digit c = (c \<in> set ''0123456789'')"

definition is_ident_start :: "char \<Rightarrow> bool" where
  "is_ident_start c = (c \<in> set ''ABCDEFGHIJKLMNOPQRSTUVWXYZabcdefghijklmnopqrstuvwxyz_'')"

definition is_ident_char :: "char \<Rightarrow> bool" where
  "is_ident_char c = (is_ident_start c \<or> is_digit c)"

definition is_newline :: "char \<Rightarrow> bool" where
  "is_newline c = (c = newline)"

definition is_skip :: "char \<Rightarrow> bool" where
  "is_skip c = (c = CHR 0x09 \<or> c = CHR 0x0D \<or> c = CHR '' '')"

text \<open>
  One match of \<^verbatim>\<open>TOKEN_REGEX\<close> at the head of the remaining text: the name of the
  first alternative of \<^verbatim>\<open>TOKEN_SPEC\<close> that matches there (\<^verbatim>\<open>mo.lastgroup\<close>) and
  the text it matches (\<^verbatim>\<open>mo.group()\<close>). The repetitions are greedy. The last
  alternative, \<^verbatim>\<open>.\<close>, takes any one character that is not a line break; a line
  break is taken by \<^verbatim>\<open>NEWLINE\<close> before it, so every position has a match.
\<close>

fun match_at :: "char \<Rightarrow> string \<Rightarrow> string \<times> string" where
  "match_at c cs =
    (if is_digit c then (''NUMBER'', c # takeWhile is_digit cs)
     else if is_ident_start c then (''IDENT'', c # takeWhile is_ident_char cs)
     else if c = CHR ''{'' then (''LBRACE'', [c])
     else if c = CHR ''}'' then (''RBRACE'', [c])
     else if c = CHR ''['' then (''LBRACKET'', [c])
     else if c = CHR '']'' then (''RBRACKET'', [c])
     else if c = CHR '':'' then (''COLON'', [c])
     else if c = CHR '';'' then (''SEMI'', [c])
     else if c = CHR '','' then (''COMMA'', [c])
     else if is_newline c then (''NEWLINE'', c # takeWhile is_newline cs)
     else if is_skip c then (''SKIP'', c # takeWhile is_skip cs)
     else (''MISMATCH'', [c]))"

declare match_at.simps [simp del]

lemma match_at_length:
  "match_at c cs = (ty, v) \<Longrightarrow> 0 < length v \<and> length v \<le> Suc (length cs)"
  by (auto simp: match_at.simps length_takeWhile_le split: if_splits)

text \<open>
  The generator \<^verbatim>\<open>lex\<close>: the tokens it yields, in order, and the exception that
  ends it, if any. \<open>pos\<close> is \<^verbatim>\<open>mo.start()\<close> of the next match.
\<close>

function lex_from :: "int \<Rightarrow> int \<Rightarrow> int \<Rightarrow> string \<Rightarrow> token list \<times> error option" where
  "lex_from pos line line_start [] = ([], None)"
| "lex_from pos line line_start (c # cs) =
    (let (ty, v) = match_at c cs;
         col = pos - line_start + 1;
         mo_end = pos + int (length v);
         rest = drop (length v) (c # cs)
     in if ty = ''NEWLINE'' then
          lex_from mo_end (line + int (count_list v newline)) mo_end rest
        else if ty = ''SKIP'' then
          lex_from mo_end line line_start rest
        else if ty = ''MISMATCH'' then
          ([], Some (SyntaxError (''Unexpected char '' @ repr_char (hd v) @ '' @ ''
                                  @ str_int line @ '':'' @ str_int col)))
        else
          (case lex_from mo_end line line_start rest of
             (ts, e) \<Rightarrow> (Token ty v line col # ts, e)))"
  by pat_completeness auto
termination
  by (relation "measure (\<lambda>(pos, line, line_start, s). length s)")
     (auto dest!: match_at_length [OF sym])

definition lex :: "string \<Rightarrow> token list \<times> error option" where
  "lex src = lex_from 0 1 0 src"

text \<open>\<^verbatim>\<open>list(lex(src))\<close>: the exception, when there is one, replaces the list.\<close>

definition lex_list :: "string \<Rightarrow> error + token list" where
  "lex_list src = (case lex src of (ts, None) \<Rightarrow> Inr ts | (ts, Some e) \<Rightarrow> Inl e)"

subsection \<open>2. Parser\<close>

text \<open>
  The AST. An argument is \<^verbatim>\<open>str|int\<close>: an identifier or an integer literal.
\<close>

datatype arg = Num int | Ident string

record statement =
  dest :: string
  op :: string
  args :: "arg list"

record block =
  gate :: string
  statements :: "statement list"

record program =
  blocks :: "block list"

text \<open>The state of a \<^verbatim>\<open>Parser\<close> object: the token list and the index \<^verbatim>\<open>self.i\<close>.\<close>

record parser =
  toks :: "token list"
  i :: nat

definition Parser :: "token list \<Rightarrow> parser" where
  "Parser tokens = \<lparr>toks = tokens, i = 0\<rparr>"

definition peek :: "parser \<Rightarrow> nat \<Rightarrow> token" where
  "peek p k = (if i p + k < length (toks p) then toks p ! (i p + k)
               else Token ''EOF'' [] (- 1) (- 1))"

definition accept :: "string list \<Rightarrow> parser \<Rightarrow> token option \<times> parser" where
  "accept types p =
    (if tok_type (peek p 0) \<in> set types
     then (Some (peek p 0), p\<lparr>i := i p + 1\<rparr>)
     else (None, p))"

definition expect :: "string list \<Rightarrow> parser \<Rightarrow> error + token \<times> parser" where
  "expect types p =
    (case accept types p of
       (Some tok, p') \<Rightarrow> Inr (tok, p')
     | (None, p') \<Rightarrow>
         Inl (ParseError (''Expected '' @ join ''/'' types @ '' at ''
                          @ str_int (tok_line (peek p' 0)) @ '':''
                          @ str_int (tok_col (peek p' 0)))))"

text \<open>
  \<^verbatim>\<open>int(tok.value)\<close> on the text of a \<^verbatim>\<open>NUMBER\<close> token, a non-empty run of
  decimal digits. On any other text the model raises \<^verbatim>\<open>ValueError\<close>; the lexer
  produces no such \<^verbatim>\<open>NUMBER\<close> token.
\<close>

definition digit_val :: "char \<Rightarrow> int" where
  "digit_val c = int (of_char c) - 48"

definition py_int :: "string \<Rightarrow> error + int" where
  "py_int s = (if s \<noteq> [] \<and> list_all is_digit s
               then Inr (foldl (\<lambda>n c. 10 * n + digit_val c) 0 s)
               else Inl ValueError)"

text \<open>\<^verbatim>\<open>str.upper\<close> on the text of an \<^verbatim>\<open>IDENT\<close> token, which is ASCII.\<close>

definition upper_char :: "char \<Rightarrow> char" where
  "upper_char c =
    (case map_of (zip ''abcdefghijklmnopqrstuvwxyz'' ''ABCDEFGHIJKLMNOPQRSTUVWXYZ'') c of
       Some u \<Rightarrow> u | None \<Rightarrow> c)"

definition upper :: "string \<Rightarrow> string" where
  "upper s = map upper_char s"

lemma accept_Some:
  "accept types p = (Some tok, p') \<Longrightarrow> ''EOF'' \<notin> set types \<Longrightarrow>
     toks p' = toks p \<and> i p' = Suc (i p) \<and> i p < length (toks p)"
  by (auto simp: accept_def peek_def split: if_splits)

lemma accept_None: "accept types p = (None, p') \<Longrightarrow> p' = p"
  by (auto simp: accept_def split: if_splits)

lemma expect_Inr:
  "expect types p = Inr (tok, p') \<Longrightarrow> ''EOF'' \<notin> set types \<Longrightarrow>
     toks p' = toks p \<and> i p' = Suc (i p) \<and> i p < length (toks p)"
  by (auto simp: expect_def split: prod.splits option.splits dest: accept_Some)

text \<open>\<^verbatim>\<open>Parser.arg_list\<close>: the loop, with the list built so far.\<close>

function arg_list_loop :: "arg list \<Rightarrow> parser \<Rightarrow> error + arg list \<times> parser" where
  "arg_list_loop acc p =
    (case expect [''IDENT'', ''NUMBER''] p of
       Inl e \<Rightarrow> Inl e
     | Inr (tok, p1) \<Rightarrow>
         (case (if tok_type tok = ''NUMBER''
                then (case py_int (tok_value tok) of Inl e \<Rightarrow> Inl e | Inr n \<Rightarrow> Inr (Num n))
                else Inr (Ident (tok_value tok))) of
            Inl e \<Rightarrow> Inl e
          | Inr a \<Rightarrow>
              (case accept [''COMMA''] p1 of
                 (None, p2) \<Rightarrow> Inr (acc @ [a], p2)
               | (Some comma, p2) \<Rightarrow> arg_list_loop (acc @ [a]) p2)))"
  by pat_completeness auto
termination
  by (relation "measure (\<lambda>(acc, p). length (toks p) - i p)")
     (auto dest!: expect_Inr accept_Some [OF sym])

declare arg_list_loop.simps [simp del]

definition arg_list :: "parser \<Rightarrow> error + arg list \<times> parser" where
  "arg_list p = arg_list_loop [] p"

lemma arg_list_loop_mono:
  "arg_list_loop acc p = Inr (as, p') \<Longrightarrow> toks p' = toks p \<and> i p < i p' \<and> i p < length (toks p)"
proof (induction acc p arbitrary: as p' rule: arg_list_loop.induct)
  case (1 acc p)
  from "1.prems" obtain tok p1 where e: "expect [''IDENT'', ''NUMBER''] p = Inr (tok, p1)"
    by (subst (asm) arg_list_loop.simps) (auto split: sum.splits)
  then have a: "toks p1 = toks p \<and> i p1 = Suc (i p) \<and> i p < length (toks p)"
    by (rule expect_Inr) simp
  from "1.prems" e obtain a where
    v: "(if tok_type tok = ''NUMBER''
         then (case py_int (tok_value tok) of Inl e \<Rightarrow> Inl e | Inr n \<Rightarrow> Inr (Num n))
         else Inr (Ident (tok_value tok))) = Inr a"
    by (subst (asm) arg_list_loop.simps) (auto split: sum.splits)
  show ?case
  proof (cases "accept [''COMMA''] p1")
    case (Pair opt p2)
    show ?thesis
    proof (cases opt)
      case None
      with Pair have "p2 = p1" by (auto dest: accept_None)
      moreover from "1.prems" e v Pair None have "p' = p2"
        by (subst (asm) arg_list_loop.simps) simp
      ultimately show ?thesis using a by simp
    next
      case (Some comma)
      with Pair have b: "toks p2 = toks p1 \<and> i p2 = Suc (i p1)"
        by (auto dest: accept_Some)
      from "1.prems" e v Pair Some have "arg_list_loop (acc @ [a]) p2 = Inr (as, p')"
        by (subst (asm) arg_list_loop.simps) simp
      with "1.IH" e v Pair Some have "toks p' = toks p2 \<and> i p2 < i p'"
        by (metis (no_types, lifting))
      with a b show ?thesis by simp
    qed
  qed
qed

text \<open>\<^verbatim>\<open>Parser.statement\<close>.\<close>

definition statement :: "parser \<Rightarrow> error + statement \<times> parser" where
  "statement p =
    (case expect [''IDENT''] p of
       Inl e \<Rightarrow> Inl e
     | Inr (d, p1) \<Rightarrow>
         (case expect [''COLON''] p1 of
            Inl e \<Rightarrow> Inl e
          | Inr (colon, p2) \<Rightarrow>
              (case expect [''IDENT''] p2 of
                 Inl e \<Rightarrow> Inl e
               | Inr (opc, p3) \<Rightarrow>
                   (case arg_list p3 of
                      Inl e \<Rightarrow> Inl e
                    | Inr (as, p4) \<Rightarrow>
                        Inr (\<lparr>dest = tok_value d, op = upper (tok_value opc), args = as\<rparr>, p4)))))"

lemma statement_mono:
  "statement p = Inr (st, p') \<Longrightarrow> toks p' = toks p \<and> i p < i p' \<and> i p < length (toks p)"
  unfolding statement_def arg_list_def
  by (auto split: sum.splits prod.splits dest!: arg_list_loop_mono expect_Inr)

text \<open>\<^verbatim>\<open>Parser.block\<close>: first its loop over the statements, with the list built so far.\<close>

function block_loop :: "statement list \<Rightarrow> parser \<Rightarrow> error + statement list \<times> parser" where
  "block_loop stmts p =
    (if tok_type (peek p 0) \<noteq> ''RBRACE'' then
       (case statement p of
          Inl e \<Rightarrow> Inl e
        | Inr (st, p1) \<Rightarrow>
            (case expect [''SEMI''] p1 of
               Inl e \<Rightarrow> Inl e
             | Inr (semi, p2) \<Rightarrow> block_loop (stmts @ [st]) p2))
     else Inr (stmts, p))"
  by pat_completeness auto
termination
  by (relation "measure (\<lambda>(stmts, p). length (toks p) - i p)")
     (auto dest!: statement_mono expect_Inr)

declare block_loop.simps [simp del]

lemma block_loop_mono:
  "block_loop stmts p = Inr (ss, p') \<Longrightarrow> toks p' = toks p \<and> i p \<le> i p'"
proof (induction stmts p arbitrary: ss p' rule: block_loop.induct)
  case (1 stmts p)
  show ?case
  proof (cases "tok_type (peek p 0) \<noteq> ''RBRACE''")
    case False
    with "1.prems" show ?thesis
      by (subst (asm) block_loop.simps) simp
  next
    case True
    with "1.prems" obtain st p1 where s: "statement p = Inr (st, p1)"
      by (subst (asm) block_loop.simps) (auto split: sum.splits)
    with "1.prems" True obtain semi p2 where e: "expect [''SEMI''] p1 = Inr (semi, p2)"
      by (subst (asm) block_loop.simps) (auto split: sum.splits)
    with "1.prems" True s have r: "block_loop (stmts @ [st]) p2 = Inr (ss, p')"
      by (subst (asm) block_loop.simps) simp
    from "1.IH" [OF True s refl e refl r] have "toks p' = toks p2 \<and> i p2 \<le> i p'" .
    moreover from s have "toks p1 = toks p \<and> i p < i p1"
      by (auto dest: statement_mono)
    moreover from e have "toks p2 = toks p1 \<and> i p2 = Suc (i p1)"
      by (auto dest: expect_Inr)
    ultimately show ?thesis by simp
  qed
qed

definition block :: "parser \<Rightarrow> error + block \<times> parser" where
  "block p =
    (case expect [''LBRACKET''] p of
       Inl e \<Rightarrow> Inl e
     | Inr (lbracket, p1) \<Rightarrow>
         (case expect [''IDENT''] p1 of
            Inl e \<Rightarrow> Inl e
          | Inr (g, p2) \<Rightarrow>
              (case expect [''RBRACKET''] p2 of
                 Inl e \<Rightarrow> Inl e
               | Inr (rbracket, p3) \<Rightarrow>
                   (case expect [''LBRACE''] p3 of
                      Inl e \<Rightarrow> Inl e
                    | Inr (lbrace, p4) \<Rightarrow>
                        (case block_loop [] p4 of
                           Inl e \<Rightarrow> Inl e
                         | Inr (stmts, p5) \<Rightarrow>
                             (case expect [''RBRACE''] p5 of
                                Inl e \<Rightarrow> Inl e
                              | Inr (rbrace, p6) \<Rightarrow>
                                  Inr (\<lparr>gate = tok_value g, statements = stmts\<rparr>, p6)))))))"

lemma block_mono:
  "block p = Inr (b, p') \<Longrightarrow> toks p' = toks p \<and> i p < i p' \<and> i p < length (toks p)"
  unfolding block_def
  by (auto split: sum.splits prod.splits dest!: block_loop_mono expect_Inr)

text \<open>\<^verbatim>\<open>Parser.parse\<close>: its loop over the blocks, with the list built so far.\<close>

function parse_loop :: "block list \<Rightarrow> parser \<Rightarrow> error + program" where
  "parse_loop blks p =
    (if tok_type (peek p 0) \<noteq> ''EOF'' then
       (case block p of
          Inl e \<Rightarrow> Inl e
        | Inr (b, p1) \<Rightarrow> parse_loop (blks @ [b]) p1)
     else Inr \<lparr>blocks = blks\<rparr>)"
  by pat_completeness auto
termination
  by (relation "measure (\<lambda>(blks, p). length (toks p) - i p)")
     (auto dest!: block_mono)

declare parse_loop.simps [simp del]

definition parse :: "parser \<Rightarrow> error + program" where
  "parse p = parse_loop [] p"

subsection \<open>3. Semantic pass\<close>

definition OPS_ARITY :: "string \<rightharpoonup> nat" where
  "OPS_ARITY = map_of
    [(''SET'', 1), (''ADD'', 1), (''SUB'', 1), (''MUL'', 1), (''DIV'', 1), (''NOT'', 1),
     (''DISPLAY'', 1),
     (''COMPARE'', 2), (''AND'', 2), (''OR'', 2), (''XOR'', 2),
     (''SHIFT_LEFT'', 2), (''SHIFT_RIGHT'', 2), (''JUMP_IF'', 2), (''LOOP'', 3)]"

text \<open>The inner loop of \<^verbatim>\<open>semantic\<close> over the arguments of one statement.\<close>

fun add_args :: "arg list \<Rightarrow> string set \<Rightarrow> string set" where
  "add_args [] symbols = symbols"
| "add_args (Ident s # as) symbols = add_args as (insert s symbols)"
| "add_args (Num n # as) symbols = add_args as symbols"

text \<open>The body of the loop over the statements of the block with gate \<open>g\<close>.\<close>

definition semantic_stmt :: "string \<Rightarrow> statement \<Rightarrow> string set \<Rightarrow> error + string set" where
  "semantic_stmt g st symbols =
    (case OPS_ARITY (op st) of
       None \<Rightarrow> Inl (SemanticError (''Unknown op '' @ op st @ '' in gate ['' @ g @ '']''))
     | Some exp \<Rightarrow>
         if length (args st) \<noteq> exp
         then Inl (SemanticError (op st @ '' expects '' @ str_int (int exp) @ '' arg(s), got ''
                                  @ str_int (int (length (args st)))))
         else Inr (add_args (args st) (insert (dest st) symbols)))"

fun semantic_stmts :: "string \<Rightarrow> statement list \<Rightarrow> string set \<Rightarrow> error + string set" where
  "semantic_stmts g [] symbols = Inr symbols"
| "semantic_stmts g (st # sts) symbols =
    (case semantic_stmt g st symbols of
       Inl e \<Rightarrow> Inl e
     | Inr symbols' \<Rightarrow> semantic_stmts g sts symbols')"

fun semantic_blocks :: "block list \<Rightarrow> string set \<Rightarrow> error + string set" where
  "semantic_blocks [] symbols = Inr symbols"
| "semantic_blocks (blk # blks) symbols =
    (case semantic_stmts (gate blk) (statements blk) symbols of
       Inl e \<Rightarrow> Inl e
     | Inr symbols' \<Rightarrow> semantic_blocks blks symbols')"

definition semantic :: "program \<Rightarrow> error + string list" where
  "semantic root =
    (case semantic_blocks (blocks root) {} of
       Inl e \<Rightarrow> Inl e
     | Inr symbols \<Rightarrow> Inr (sorted_list_of_set symbols))"

subsection \<open>4. Emitter\<close>

text \<open>\<^verbatim>\<open>f"{x}"\<close> for an argument (\<^verbatim>\<open>str|int\<close>), and \<^verbatim>\<open>val\<close>.\<close>

fun fmt_arg :: "arg \<Rightarrow> string" where
  "fmt_arg (Num n) = str_int n"
| "fmt_arg (Ident s) = s"

fun val :: "arg \<Rightarrow> string" where
  "val (Num n) = str_int n"
| "val (Ident s) = ''['' @ s @ '']''"

text \<open>\<^verbatim>\<open>f"{x}"\<close> for \<^verbatim>\<open>a1\<close> and \<^verbatim>\<open>a2\<close>, which are \<^verbatim>\<open>None\<close> when the argument is absent.\<close>

fun fmt_opt :: "string option \<Rightarrow> string" where
  "fmt_opt None = ''None''"
| "fmt_opt (Some s) = s"

text \<open>\<^verbatim>\<open>str.lower\<close> on an opcode name.\<close>

definition lower_char :: "char \<Rightarrow> char" where
  "lower_char c =
    (case map_of (zip ''ABCDEFGHIJKLMNOPQRSTUVWXYZ'' ''abcdefghijklmnopqrstuvwxyz'') c of
       Some l \<Rightarrow> l | None \<Rightarrow> c)"

definition lower :: "string \<Rightarrow> string" where
  "lower s = map lower_char s"

text \<open>\<^verbatim>\<open>f"{s:16}"\<close>: a string padded with spaces on the right to 16 characters.\<close>

definition pad16 :: "string \<Rightarrow> string" where
  "pad16 s = s @ replicate (16 - length s) CHR '' ''"

definition start_label :: "int \<Rightarrow> string" where
  "start_label lbl = ''.Lloop'' @ str_int lbl"

definition end_label :: "int \<Rightarrow> string" where
  "end_label lbl = ''.Lend'' @ str_int lbl"

text \<open>The text that the \<^verbatim>\<open>LOOP\<close> branch writes, from the two labels and the three arguments.\<close>

definition loop_text :: "string \<Rightarrow> string \<Rightarrow> arg \<Rightarrow> arg \<Rightarrow> arg \<Rightarrow> string" where
  "loop_text start end ctr step acc =
     ''    mov     rax, ['' @ fmt_arg ctr @ '']\<newline>'' @ start @ '':\<newline>''
     @ ''    cmp     rax, 0\<newline>    je      '' @ end @ ''\<newline>''
     @ ''    add     ['' @ fmt_arg acc @ ''], '' @ val step @ ''\<newline>''
     @ ''    dec     rax\<newline>    jmp     '' @ start @ ''\<newline>'' @ end @ '':\<newline>''
     @ ''    mov     ['' @ fmt_arg ctr @ ''], rax\<newline>''"

text \<open>
  \<^verbatim>\<open>emit_stmt\<close>. \<open>w\<close> is the text written to the file so far; the result is the
  text after the branch's \<^verbatim>\<open>w.write\<close> and the label counter the function returns.
\<close>

definition emit_stmt :: "string \<Rightarrow> statement \<Rightarrow> int \<Rightarrow> error + string \<times> int" where
  "emit_stmt w st lbl =
    (let d = dest st; opc = op st; a = args st;
         dst = ''['' @ d @ '']'';
         a1 = fmt_opt (if a \<noteq> [] then Some (val (a ! 0)) else None);
         a2 = fmt_opt (if length a > 1 then Some (val (a ! 1)) else None)
     in
     if opc = ''SET'' then
       Inr (w @ ''    mov     '' @ dst @ '', '' @ a1 @ ''\<newline>'', lbl)
     else if opc = ''ADD'' then
       Inr (w @ ''    add     '' @ dst @ '', '' @ a1 @ ''\<newline>'', lbl)
     else if opc = ''SUB'' then
       Inr (w @ ''    sub     '' @ dst @ '', '' @ a1 @ ''\<newline>'', lbl)
     else if opc = ''MUL'' then
       Inr (w @ ''    mov     rax, '' @ dst @ ''\<newline>    imul    rax, '' @ a1
              @ ''\<newline>    mov     '' @ dst @ '', rax\<newline>'', lbl)
     else if opc = ''DIV'' then
       Inr (w @ ''    xor     rdx, rdx\<newline>    mov     rax, '' @ dst
              @ ''\<newline>    div     '' @ a1 @ ''\<newline>    mov     '' @ dst @ '', rax\<newline>'', lbl)
     else if opc \<in> set [''AND'', ''OR'', ''XOR''] then
       Inr (w @ ''    mov     rax, '' @ a1 @ ''\<newline>    '' @ lower opc @ ''     rax, '' @ a2
              @ ''\<newline>    mov     '' @ dst @ '', rax\<newline>'', lbl)
     else if opc = ''NOT'' then
       Inr (w @ ''    mov     rax, '' @ a1 @ ''\<newline>    not     rax\<newline>    mov     ''
              @ dst @ '', rax\<newline>'', lbl)
     else if opc = ''SHIFT_LEFT'' then
       Inr (w @ ''    mov     rax, '' @ a1 @ ''\<newline>    shl     rax, '' @ a2
              @ ''\<newline>    mov     '' @ dst @ '', rax\<newline>'', lbl)
     else if opc = ''SHIFT_RIGHT'' then
       Inr (w @ ''    mov     rax, '' @ a1 @ ''\<newline>    shr     rax, '' @ a2
              @ ''\<newline>    mov     '' @ dst @ '', rax\<newline>'', lbl)
     else if opc = ''COMPARE'' then
       Inr (w @ ''    mov     rax, '' @ a1 @ ''\<newline>    cmp     rax, '' @ a2 @ ''\<newline>'', lbl)
     else if opc = ''JUMP_IF'' then
       (if length a > 1
        then Inr (w @ ''    jne     '' @ fmt_arg (a ! 1) @ ''    ; JUMP_IF\<newline>'', lbl)
        else Inl IndexError)
     else if opc = ''DISPLAY'' then
       Inr (w @ ''    mov     rcx, fmt_dec\<newline>    mov     rdx, '' @ a1
              @ ''\<newline>    xor     rax, rax\<newline>    call    printf\<newline>'', lbl)
     else if opc = ''LOOP'' then
       (case a of
          [ctr, step, acc] \<Rightarrow>
            Inr (w @ loop_text (start_label lbl) (end_label lbl) ctr step acc, lbl + 1)
        | _ \<Rightarrow> Inl ValueError)
     else Inl (NotImplementedError opc))"

text \<open>The two loops of \<^verbatim>\<open>emit\<close>, over the statements of a block and over the blocks.\<close>

fun emit_stmts :: "string \<Rightarrow> statement list \<Rightarrow> int \<Rightarrow> error + string \<times> int" where
  "emit_stmts w [] lbl = Inr (w, lbl)"
| "emit_stmts w (st # sts) lbl =
    (case emit_stmt w st lbl of
       Inl e \<Rightarrow> Inl e
     | Inr (w', lbl') \<Rightarrow> emit_stmts w' sts lbl')"

fun emit_blocks :: "string \<Rightarrow> block list \<Rightarrow> int \<Rightarrow> error + string \<times> int" where
  "emit_blocks w [] lbl = Inr (w, lbl)"
| "emit_blocks w (blk # blks) lbl =
    (case emit_stmts (w @ ''    ; --- Gate ['' @ gate blk @ ''] ---\<newline>'') (statements blk) lbl of
       Inl e \<Rightarrow> Inl e
     | Inr (w', lbl') \<Rightarrow> emit_blocks w' blks lbl')"

text \<open>The storage declaration of one symbol in \<^verbatim>\<open>section .bss\<close>.\<close>

definition resq_line :: "string \<Rightarrow> string" where
  "resq_line s = ''    '' @ pad16 s @ '' resq 1\<newline>''"

text \<open>
  \<^verbatim>\<open>emit\<close>: the text of the output file. The label counter is the local variable
  \<^verbatim>\<open>lbl\<close>, set to 0 before the loop over the blocks.
\<close>

definition emit_header :: "string list \<Rightarrow> string" where
  "emit_header syms =
     ''; generated by celc.py\<newline>''
     @ ''section .data\<newline>''
     @ ''    fmt_dec db '' @ [CHR 0x22] @ ''%lld'' @ [CHR 0x22] @ '', 10, 0\<newline>''
     @ ''section .bss\<newline>''
     @ concat (map resq_line syms)
     @ ''section .text\<newline>    extern printf\<newline>    global main\<newline>\<newline>main:\<newline>''"

definition emit :: "program \<Rightarrow> string list \<Rightarrow> error + string" where
  "emit root syms =
    (case emit_blocks (emit_header syms) (blocks root) 0 of
       Inl e \<Rightarrow> Inl e
     | Inr (w, lbl) \<Rightarrow> Inr (w @ ''    xor     rax, rax\<newline>    ret\<newline>''))"

subsection \<open>The pipeline of \<^verbatim>\<open>main\<close>\<close>

text \<open>
  The four calls of \<^verbatim>\<open>main\<close> from the source text to the text of the assembly
  file; an exception of any stage ends the run.
\<close>

definition compile :: "string \<Rightarrow> error + string" where
  "compile src_code =
    (case lex_list src_code of
       Inl e \<Rightarrow> Inl e
     | Inr tokens \<Rightarrow>
         (case parse (Parser tokens) of
            Inl e \<Rightarrow> Inl e
          | Inr ast \<Rightarrow>
              (case semantic ast of
                 Inl e \<Rightarrow> Inl e
               | Inr symbols \<Rightarrow> emit ast symbols)))"

subsection \<open>Auxiliary definitions\<close>

text \<open>
  Four definitions that are not functions of the source. \<open>unmatched\<close> names the
  characters on which \<^verbatim>\<open>lex\<close> raises; \<open>col_after\<close> is a closed form of the
  column \<^verbatim>\<open>lex\<close> computes; \<open>parse_error_of\<close> says what a parse error holds;
  \<open>emit_from\<close> is the double loop of \<^verbatim>\<open>emit\<close> as one
  recursion, equal to \<open>emit_stmts\<close> followed by \<open>emit_blocks\<close> (lemma
  \<open>emit_from_eq\<close>).
\<close>

text \<open>
  A character that only the last alternative of \<^verbatim>\<open>TOKEN_SPEC\<close>, \<^verbatim>\<open>MISMATCH\<close>,
  matches.
\<close>

definition unmatched :: "char \<Rightarrow> bool" where
  "unmatched c = (fst (match_at c []) = ''MISMATCH'')"

text \<open>
  The column that \<^verbatim>\<open>lex\<close> computes for the character after the text \<open>pre\<close>, when
  \<open>pre\<close> starts at offset \<open>pos\<close> and the current line starts at offset \<open>ls\<close>.
\<close>

definition col_after :: "int \<Rightarrow> int \<Rightarrow> string \<Rightarrow> int" where
  "col_after pos ls pre =
     (if newline \<in> set pre then int (length (takeWhile (\<lambda>y. y \<noteq> newline) (rev pre))) + 1
      else pos + int (length pre) - ls + 1)"

text \<open>
  An error is a parse error about a token of the list \<open>ts\<close>, or about the end of the
  input: its message names some expected kinds, none of them the kind of that token,
  and the line and column of that token.
\<close>

definition parse_error_of :: "token list \<Rightarrow> error \<Rightarrow> bool" where
  "parse_error_of ts e =
     (\<exists>types tok. (tok \<in> set ts \<or> tok = Token ''EOF'' [] (- 1) (- 1))
        \<and> tok_type tok \<notin> set types
        \<and> e = ParseError (''Expected '' @ join ''/'' types @ '' at ''
                           @ str_int (tok_line tok) @ '':'' @ str_int (tok_col tok)))"

text \<open>
  The rest of a run of the two loops of \<^verbatim>\<open>emit\<close>: the statements that remain in the
  current block, then the blocks that remain.
\<close>

fun emit_from :: "string \<Rightarrow> statement list \<Rightarrow> block list \<Rightarrow> int \<Rightarrow> error + string \<times> int" where
  "emit_from w [] [] lbl = Inr (w, lbl)"
| "emit_from w [] (blk # blks) lbl =
     emit_from (w @ ''    ; --- Gate ['' @ gate blk @ ''] ---\<newline>'') (statements blk) blks lbl"
| "emit_from w (st # sts) blks lbl =
    (case emit_stmt w st lbl of
       Inl e \<Rightarrow> Inl e
     | Inr (w', lbl') \<Rightarrow> emit_from w' sts blks lbl')"

section \<open>Properties\<close>

subsection \<open>Decimal text\<close>

lemma str_int_small [simp]:
  "str_int 0 = ''0''" "str_int 1 = ''1''" "str_int 2 = ''2''" "str_int 3 = ''3''"
  "str_int 4 = ''4''"
  by (simp_all add: str_int_def str_nat.simps digit_char_def)

subsection \<open>The emitter on single statements\<close>

text \<open>
  Claim C4. The group emitted for a \<^verbatim>\<open>JUMP_IF\<close> statement is the one line
  \<^verbatim>\<open>jne <second argument>\<close>, with the name itself when the second argument is an
  identifier and the decimal text when it is a number: a conditional transfer to the
  gate named by the second argument. Neither the destination nor the first argument
  occurs in it, so two \<^verbatim>\<open>JUMP_IF\<close> statements with the same second argument write
  the same text.
\<close>

theorem jump_if_emits_transfer_to_second_argument:
  "emit_stmt w \<lparr>dest = d, op = ''JUMP_IF'', args = [a, Ident g]\<rparr> lbl
     = Inr (w @ ''    jne     '' @ g @ ''    ; JUMP_IF\<newline>'', lbl)
   \<and> emit_stmt w \<lparr>dest = d, op = ''JUMP_IF'', args = [a, Num n]\<rparr> lbl
     = Inr (w @ ''    jne     '' @ str_int n @ ''    ; JUMP_IF\<newline>'', lbl)
   \<and> emit_stmt w \<lparr>dest = d', op = ''JUMP_IF'', args = [a', t]\<rparr> lbl
     = emit_stmt w \<lparr>dest = d, op = ''JUMP_IF'', args = [a, t]\<rparr> lbl"
  by (simp add: emit_stmt_def)

theorem jump_if_emits_transfer_to_second_argument_witness:
  "emit_stmt [] \<lparr>dest = ''a'', op = ''JUMP_IF'', args = [Ident ''b'', Ident ''loopgate'']\<rparr> 0
     = Inr (''    jne     loopgate    ; JUMP_IF\<newline>'', 0)
   \<and> emit_stmt [] \<lparr>dest = ''a'', op = ''JUMP_IF'', args = [Ident ''b'', Num 12]\<rparr> 0
     = Inr (''    jne     12    ; JUMP_IF\<newline>'', 0)
   \<and> emit_stmt [] \<lparr>dest = ''z'', op = ''JUMP_IF'', args = [Num 5, Ident ''loopgate'']\<rparr> 0
     = Inr (''    jne     loopgate    ; JUMP_IF\<newline>'', 0)"
proof -
  have s: "str_int 12 = ''12''"
    by code_simp
  note t = jump_if_emits_transfer_to_second_argument
    [of "[]" "''a''" "Ident ''b''" "''loopgate''" 0 12 "''z''" "Num 5" "Ident ''loopgate''"]
  from t have "emit_stmt [] \<lparr>dest = ''a'', op = ''JUMP_IF'', args = [Ident ''b'', Ident ''loopgate'']\<rparr> 0
     = Inr (''    jne     loopgate    ; JUMP_IF\<newline>'', 0)"
    by simp
  moreover from t s have "emit_stmt [] \<lparr>dest = ''a'', op = ''JUMP_IF'', args = [Ident ''b'', Num 12]\<rparr> 0
     = Inr (''    jne     12    ; JUMP_IF\<newline>'', 0)"
    by simp
  moreover from t have "emit_stmt [] \<lparr>dest = ''z'', op = ''JUMP_IF'', args = [Num 5, Ident ''loopgate'']\<rparr> 0
     = Inr (''    jne     loopgate    ; JUMP_IF\<newline>'', 0)"
    by simp
  ultimately show ?thesis by simp
qed

lemma OPS_ARITY_DISPLAY: "OPS_ARITY ''DISPLAY'' = Some 1"
  by (simp add: OPS_ARITY_def)

text \<open>
  Claim C5. The validator accepts a \<^verbatim>\<open>DISPLAY\<close> statement exactly when it has one
  argument; a program of one such statement passes \<^verbatim>\<open>semantic\<close>. The emitted group
  loads the format and the argument into \<^verbatim>\<open>rcx\<close> and \<^verbatim>\<open>rdx\<close>, clears
  \<^verbatim>\<open>rax\<close> and calls \<^verbatim>\<open>printf\<close>: the destination does not occur in it, so
  no instruction of the group writes the destination's cell.
\<close>

theorem display_accepted_and_writes_no_destination:
  "((\<exists>symbols'. semantic_stmt g \<lparr>dest = d, op = ''DISPLAY'', args = as\<rparr> symbols = Inr symbols')
      = (length as = 1))
   \<and> semantic \<lparr>blocks = [\<lparr>gate = g, statements = [\<lparr>dest = d, op = ''DISPLAY'', args = [a]\<rparr>]\<rparr>]\<rparr>
       = Inr (sorted_list_of_set (add_args [a] {d}))
   \<and> emit_stmt w \<lparr>dest = d, op = ''DISPLAY'', args = [a]\<rparr> lbl
       = Inr (w @ ''    mov     rcx, fmt_dec\<newline>    mov     rdx, '' @ val a
                @ ''\<newline>    xor     rax, rax\<newline>    call    printf\<newline>'', lbl)
   \<and> emit_stmt w \<lparr>dest = d', op = ''DISPLAY'', args = [a]\<rparr> lbl
       = emit_stmt w \<lparr>dest = d, op = ''DISPLAY'', args = [a]\<rparr> lbl"
  by (simp add: emit_stmt_def semantic_stmt_def semantic_def OPS_ARITY_DISPLAY)

theorem display_accepted_and_writes_no_destination_witness:
  "semantic \<lparr>blocks = [\<lparr>gate = ''g'', statements =
        [\<lparr>dest = ''d'', op = ''DISPLAY'', args = [Num 42]\<rparr>]\<rparr>]\<rparr> = Inr [''d'']
   \<and> emit_stmt [] \<lparr>dest = ''d'', op = ''DISPLAY'', args = [Num 42]\<rparr> 0
       = Inr (''    mov     rcx, fmt_dec\<newline>    mov     rdx, 42\<newline>''
              @ ''    xor     rax, rax\<newline>    call    printf\<newline>'', 0)
   \<and> emit_stmt [] \<lparr>dest = ''d'', op = ''DISPLAY'', args = [Ident ''v'']\<rparr> 0
       = Inr (''    mov     rcx, fmt_dec\<newline>    mov     rdx, [v]\<newline>''
              @ ''    xor     rax, rax\<newline>    call    printf\<newline>'', 0)"
proof -
  have s: "str_int 42 = ''42''"
    by code_simp
  have l: "sorted_list_of_set (add_args [Num 42] {''d''}) = [''d'']"
    by simp
  note t = display_accepted_and_writes_no_destination
    [of "''g''" "''d''" "[Num 42]" "{}" "Num 42" "[]" 0 "''d''"]
  note u = display_accepted_and_writes_no_destination
    [of "''g''" "''d''" "[Ident ''v'']" "{}" "Ident ''v''" "[]" 0 "''d''"]
  from t l have "semantic \<lparr>blocks = [\<lparr>gate = ''g'', statements =
        [\<lparr>dest = ''d'', op = ''DISPLAY'', args = [Num 42]\<rparr>]\<rparr>]\<rparr> = Inr [''d'']"
    by simp
  moreover from t s have "emit_stmt [] \<lparr>dest = ''d'', op = ''DISPLAY'', args = [Num 42]\<rparr> 0
       = Inr (''    mov     rcx, fmt_dec\<newline>    mov     rdx, 42\<newline>''
              @ ''    xor     rax, rax\<newline>    call    printf\<newline>'', 0)"
    by simp
  moreover from u have "emit_stmt [] \<lparr>dest = ''d'', op = ''DISPLAY'', args = [Ident ''v'']\<rparr> 0
       = Inr (''    mov     rcx, fmt_dec\<newline>    mov     rdx, [v]\<newline>''
              @ ''    xor     rax, rax\<newline>    call    printf\<newline>'', 0)"
    by simp
  ultimately show ?thesis by simp
qed

subsection \<open>The arity check\<close>



subsection \<open>Decimal text is injective\<close>

lemma digit_char_inj:
  assumes "d < 10" "d' < 10" "digit_char d = digit_char d'"
  shows "d = d'"
proof -
  have c: "\<And>k::nat. k < 10 \<Longrightarrow> k \<in> {0, 1, 2, 3, 4, 5, 6, 7, 8, 9}"
    by auto
  from c [OF assms(1)] c [OF assms(2)] assms(3) show ?thesis
    unfolding digit_char_def by (elim insertE emptyE) simp_all
qed

lemma str_nat_nonempty: "str_nat n \<noteq> []"
  by (subst str_nat.simps) simp

lemma str_nat_inj: "str_nat m = str_nat n \<Longrightarrow> m = n"
proof (induction m arbitrary: n rule: str_nat.induct)
  case (1 m)
  show ?case
  proof (cases "m < 10")
    case True
    then have m: "str_nat m = [digit_char m]"
      by (subst str_nat.simps) simp
    show ?thesis
    proof (cases "n < 10")
      case n: True
      then have "str_nat n = [digit_char n]"
        by (subst str_nat.simps) simp
      with m "1.prems" have "digit_char m = digit_char n" by simp
      with True n show ?thesis by (rule digit_char_inj)
    next
      case False
      then have "str_nat n = str_nat (n div 10) @ [digit_char (n mod 10)]"
        by (subst str_nat.simps) simp
      with m "1.prems" str_nat_nonempty [of "n div 10"] show ?thesis by simp
    qed
  next
    case False
    then have m: "str_nat m = str_nat (m div 10) @ [digit_char (m mod 10)]"
      by (subst str_nat.simps) simp
    show ?thesis
    proof (cases "n < 10")
      case True
      then have "str_nat n = [digit_char n]"
        by (subst str_nat.simps) simp
      with m "1.prems" str_nat_nonempty [of "m div 10"] show ?thesis by simp
    next
      case n: False
      then have "str_nat n = str_nat (n div 10) @ [digit_char (n mod 10)]"
        by (subst str_nat.simps) simp
      with m "1.prems" have a: "str_nat (m div 10) = str_nat (n div 10)"
        and b: "digit_char (m mod 10) = digit_char (n mod 10)" by simp_all
      from "1.IH" [OF False a] have "m div 10 = n div 10" .
      moreover from b have "m mod 10 = n mod 10"
        by (intro digit_char_inj) simp_all
      ultimately show ?thesis by (metis div_mult_mod_eq)
    qed
  qed
qed

lemma start_label_inj: "start_label (int m) = start_label (int n) \<Longrightarrow> m = n"
  by (auto simp: start_label_def str_int_def dest: str_nat_inj)

lemma end_label_inj: "end_label (int m) = end_label (int n) \<Longrightarrow> m = n"
  by (auto simp: end_label_def str_int_def dest: str_nat_inj)

subsection \<open>The symbols collected by the validator\<close>

lemma add_args_eq: "add_args as S = S \<union> {s. Ident s \<in> set as}"
  by (induction as S rule: add_args.induct) auto

lemma add_args_finite: "finite S \<Longrightarrow> finite (add_args as S)"
  by (induction as S rule: add_args.induct) auto

lemma semantic_stmt_Inr:
  "semantic_stmt g st S = Inr S' \<Longrightarrow>
     S' = S \<union> insert (dest st) {s. Ident s \<in> set (args st)}
     \<and> OPS_ARITY (op st) = Some (length (args st))"
  by (auto simp: semantic_stmt_def add_args_eq split: option.splits if_splits)

lemma semantic_stmt_finite:
  "semantic_stmt g st S = Inr S' \<Longrightarrow> finite S \<Longrightarrow> finite S'"
  by (auto simp: semantic_stmt_def add_args_finite split: option.splits if_splits)

lemma semantic_stmts_Inr:
  "semantic_stmts g sts S = Inr S' \<Longrightarrow>
     S' = S \<union> {s. \<exists>st\<in>set sts. s = dest st \<or> Ident s \<in> set (args st)}"
proof (induction sts arbitrary: S)
  case Nil
  then show ?case by simp
next
  case (Cons st sts)
  from Cons.prems obtain S1 where a: "semantic_stmt g st S = Inr S1"
    and b: "semantic_stmts g sts S1 = Inr S'"
    by (auto split: sum.splits)
  from semantic_stmt_Inr [OF a] Cons.IH [OF b] show ?case by auto
qed

lemma semantic_stmts_finite:
  "semantic_stmts g sts S = Inr S' \<Longrightarrow> finite S \<Longrightarrow> finite S'"
  by (induction sts arbitrary: S) (auto split: sum.splits dest: semantic_stmt_finite)

lemma semantic_blocks_Inr:
  "semantic_blocks blks S = Inr S' \<Longrightarrow>
     S' = S \<union> {s. \<exists>blk\<in>set blks. \<exists>st\<in>set (statements blk).
                      s = dest st \<or> Ident s \<in> set (args st)}"
proof (induction blks arbitrary: S)
  case Nil
  then show ?case by simp
next
  case (Cons blk blks)
  from Cons.prems obtain S1 where a: "semantic_stmts (gate blk) (statements blk) S = Inr S1"
    and b: "semantic_blocks blks S1 = Inr S'"
    by (auto split: sum.splits)
  from semantic_stmts_Inr [OF a] Cons.IH [OF b] show ?case by auto
qed

lemma semantic_blocks_finite:
  "semantic_blocks blks S = Inr S' \<Longrightarrow> finite S \<Longrightarrow> finite S'"
  by (induction blks arbitrary: S) (auto split: sum.splits dest: semantic_stmts_finite)

lemma semantic_Inr:
  assumes "semantic root = Inr syms"
  shows "sorted syms \<and> distinct syms \<and>
         set syms = {s. \<exists>blk\<in>set (blocks root). \<exists>st\<in>set (statements blk).
                          s = dest st \<or> Ident s \<in> set (args st)}"
proof -
  from assms obtain S where a: "semantic_blocks (blocks root) {} = Inr S"
    and b: "syms = sorted_list_of_set S"
    by (auto simp: semantic_def split: sum.splits)
  from semantic_blocks_finite [OF a] have f: "finite S" by simp
  from semantic_blocks_Inr [OF a] have
    "S = {s. \<exists>blk\<in>set (blocks root). \<exists>st\<in>set (statements blk).
               s = dest st \<or> Ident s \<in> set (args st)}" by simp
  with f b show ?thesis by simp
qed

text \<open>
  Claim C1. When the validator accepts a program, the list it returns is sorted in
  the lexicographic order of strings, has no duplicates, and its elements are exactly
  the identifiers that occur in some statement of some block as the destination or as
  an identifier argument.
\<close>

theorem symbols_sorted_distinct_exact:
  assumes "semantic root = Inr syms"
  shows "sorted syms \<and> distinct syms \<and>
         set syms = {s. \<exists>blk\<in>set (blocks root). \<exists>st\<in>set (statements blk).
                          s = dest st \<or> Ident s \<in> set (args st)}"
  using assms by (rule semantic_Inr)

theorem symbols_sorted_distinct_exact_witness:
  "semantic \<lparr>blocks = [\<lparr>gate = ''start'', statements =
        [\<lparr>dest = ''y'', op = ''SET'', args = [Num 0]\<rparr>,
         \<lparr>dest = ''y'', op = ''ADD'', args = [Ident ''x'']\<rparr>,
         \<lparr>dest = ''a'', op = ''JUMP_IF'', args = [Ident ''y'', Ident ''start'']\<rparr>]\<rparr>]\<rparr>
     = Inr [''a'', ''start'', ''x'', ''y'']
   \<and> sorted [''a'', ''start'', ''x'', ''y'']
   \<and> distinct [''a'', ''start'', ''x'', ''y'']
   \<and> set [''a'', ''start'', ''x'', ''y''] =
       {s. \<exists>blk\<in>set (blocks \<lparr>blocks = [\<lparr>gate = ''start'', statements =
              [\<lparr>dest = ''y'', op = ''SET'', args = [Num 0]\<rparr>,
               \<lparr>dest = ''y'', op = ''ADD'', args = [Ident ''x'']\<rparr>,
               \<lparr>dest = ''a'', op = ''JUMP_IF'', args = [Ident ''y'', Ident ''start'']\<rparr>]\<rparr>]\<rparr>).
            \<exists>st\<in>set (statements blk). s = dest st \<or> Ident s \<in> set (args st)}"
proof -
  have h: "semantic \<lparr>blocks = [\<lparr>gate = ''start'', statements =
        [\<lparr>dest = ''y'', op = ''SET'', args = [Num 0]\<rparr>,
         \<lparr>dest = ''y'', op = ''ADD'', args = [Ident ''x'']\<rparr>,
         \<lparr>dest = ''a'', op = ''JUMP_IF'', args = [Ident ''y'', Ident ''start'']\<rparr>]\<rparr>]\<rparr>
     = Inr [''a'', ''start'', ''x'', ''y'']"
    by code_simp
  from symbols_sorted_distinct_exact [OF h] h show ?thesis by blast
qed

subsection \<open>The errors of the validator\<close>

lemma semantic_stmt_Inl:
  "semantic_stmt g st S = Inl e \<Longrightarrow>
     (OPS_ARITY (op st) = None \<and>
        e = SemanticError (''Unknown op '' @ op st @ '' in gate ['' @ g @ '']''))
     \<or> (\<exists>n. OPS_ARITY (op st) = Some n \<and> length (args st) \<noteq> n \<and>
            e = SemanticError (op st @ '' expects '' @ str_int (int n) @ '' arg(s), got ''
                               @ str_int (int (length (args st)))))"
  by (auto simp: semantic_stmt_def split: option.splits if_splits)

lemma semantic_stmts_Inl:
  "semantic_stmts g sts S = Inl e \<Longrightarrow>
     \<exists>st\<in>set sts.
       (OPS_ARITY (op st) = None \<and>
          e = SemanticError (''Unknown op '' @ op st @ '' in gate ['' @ g @ '']''))
       \<or> (\<exists>n. OPS_ARITY (op st) = Some n \<and> length (args st) \<noteq> n \<and>
              e = SemanticError (op st @ '' expects '' @ str_int (int n) @ '' arg(s), got ''
                                 @ str_int (int (length (args st)))))"
proof (induction sts arbitrary: S)
  case Nil
  then show ?case by simp
next
  case (Cons st sts)
  show ?case
  proof (cases "semantic_stmt g st S")
    case (Inl e')
    with Cons.prems have "e' = e" by simp
    with semantic_stmt_Inl [OF Inl] show ?thesis by auto
  next
    case (Inr S1)
    with Cons.prems have "semantic_stmts g sts S1 = Inl e" by simp
    from Cons.IH [OF this] show ?thesis by auto
  qed
qed

lemma semantic_blocks_Inl:
  "semantic_blocks blks S = Inl e \<Longrightarrow>
    \<exists>blk\<in>set blks. \<exists>st\<in>set (statements blk).
       (OPS_ARITY (op st) = None \<and>
          e = SemanticError (''Unknown op '' @ op st @ '' in gate ['' @ gate blk @ '']''))
       \<or> (\<exists>n. OPS_ARITY (op st) = Some n \<and> length (args st) \<noteq> n \<and>
              e = SemanticError (op st @ '' expects '' @ str_int (int n) @ '' arg(s), got ''
                                 @ str_int (int (length (args st)))))"
proof (induction blks arbitrary: S)
  case Nil
  then show ?case by simp
next
  case (Cons blk blks)
  show ?case
  proof (cases "semantic_stmts (gate blk) (statements blk) S")
    case (Inl e')
    with Cons.prems have "e' = e" by simp
    with semantic_stmts_Inl [OF Inl] show ?thesis by auto
  next
    case (Inr S1)
    with Cons.prems have "semantic_blocks blks S1 = Inl e" by simp
    from Cons.IH [OF this] show ?thesis by auto
  qed
qed

text \<open>
  The two shapes of a semantic error: it comes from one statement of one block and is
  either \<^verbatim>\<open>Unknown op <op> in gate [<gate>]\<close> or
  \<^verbatim>\<open><op> expects <n> arg(s), got <count>\<close>.
\<close>

lemma semantic_error_shapes:
  assumes "semantic root = Inl e"
  shows "\<exists>blk\<in>set (blocks root). \<exists>st\<in>set (statements blk).
       (OPS_ARITY (op st) = None \<and>
          e = SemanticError (''Unknown op '' @ op st @ '' in gate ['' @ gate blk @ '']''))
       \<or> (\<exists>n. OPS_ARITY (op st) = Some n \<and> length (args st) \<noteq> n \<and>
              e = SemanticError (op st @ '' expects '' @ str_int (int n) @ '' arg(s), got ''
                                 @ str_int (int (length (args st)))))"
proof -
  from assms have "semantic_blocks (blocks root) {} = Inl e"
    by (auto simp: semantic_def split: sum.splits)
  then show ?thesis by (rule semantic_blocks_Inl)
qed

text \<open>
  Claim C8. Every semantic error should carry the opcode and the enclosing gate. The
  error for an unknown opcode does: \<^verbatim>\<open>FOO\<close> in the gate \<^verbatim>\<open>g1\<close> gives
  \<^verbatim>\<open>Unknown op FOO in gate [g1]\<close>. The error for a wrong number of arguments does
  not: \<^verbatim>\<open>SET\<close> with two arguments gives \<^verbatim>\<open>SET expects 1 arg(s), got 2\<close> in the
  gate \<^verbatim>\<open>g1\<close> and in the gate \<^verbatim>\<open>g2\<close> alike, so that raise leaves the gate out.
\<close>

theorem arity_error_omits_gate:
  "semantic \<lparr>blocks = [\<lparr>gate = ''g1'', statements =
        [\<lparr>dest = ''x'', op = ''FOO'', args = [Num 1, Num 2]\<rparr>]\<rparr>]\<rparr>
     = Inl (SemanticError ''Unknown op FOO in gate [g1]'')
   \<and> semantic \<lparr>blocks = [\<lparr>gate = ''g1'', statements =
        [\<lparr>dest = ''x'', op = ''SET'', args = [Num 1, Num 2]\<rparr>]\<rparr>]\<rparr>
     = Inl (SemanticError ''SET expects 1 arg(s), got 2'')
   \<and> semantic \<lparr>blocks = [\<lparr>gate = ''g2'', statements =
        [\<lparr>dest = ''x'', op = ''SET'', args = [Num 1, Num 2]\<rparr>]\<rparr>]\<rparr>
     = Inl (SemanticError ''SET expects 1 arg(s), got 2'')
   \<and> compile ''[g1]{x:SET 1,2;}'' = Inl (SemanticError ''SET expects 1 arg(s), got 2'')
   \<and> compile ''[g2]{x:SET 1,2;}'' = Inl (SemanticError ''SET expects 1 arg(s), got 2'')"
  by code_simp

subsection \<open>Unknown opcodes\<close>

lemma semantic_stmts_unknown:
  "st \<in> set sts \<Longrightarrow> OPS_ARITY (op st) = None \<Longrightarrow>
     \<exists>m. semantic_stmts g sts S = Inl (SemanticError m)"
proof (induction sts arbitrary: S)
  case Nil
  then show ?case by simp
next
  case (Cons st' sts)
  show ?case
  proof (cases "semantic_stmt g st' S")
    case (Inl e)
    from semantic_stmt_Inl [OF Inl] obtain m where "e = SemanticError m" by auto
    with Inl show ?thesis by simp
  next
    case (Inr S1)
    with Cons.prems(2) have "st' \<noteq> st"
      by (auto simp: semantic_stmt_def)
    with Cons.prems have "st \<in> set sts" by simp
    from Cons.IH [OF this Cons.prems(2)] Inr show ?thesis by simp
  qed
qed

lemma semantic_blocks_unknown:
  "blk \<in> set blks \<Longrightarrow> st \<in> set (statements blk) \<Longrightarrow> OPS_ARITY (op st) = None \<Longrightarrow>
     \<exists>m. semantic_blocks blks S = Inl (SemanticError m)"
proof (induction blks arbitrary: S)
  case Nil
  then show ?case by simp
next
  case (Cons b blks)
  show ?case
  proof (cases "semantic_stmts (gate b) (statements b) S")
    case (Inl e)
    from semantic_stmts_Inl [OF Inl] obtain m where "e = SemanticError m" by auto
    with Inl show ?thesis by simp
  next
    case (Inr S1)
    have "b \<noteq> blk"
    proof
      assume "b = blk"
      with semantic_stmts_unknown [OF Cons.prems(2,3), of "gate b" S] Inr show False by simp
    qed
    with Cons.prems have "blk \<in> set blks" by simp
    from Cons.IH [OF this Cons.prems(2,3)] Inr show ?thesis by simp
  qed
qed

text \<open>
  Claim C9. When the source text lexes and parses to a program in which some statement
  has an opcode that is not in \<^verbatim>\<open>OPS_ARITY\<close>, the validator raises a semantic error
  and that error is the result of the whole pipeline: \<^verbatim>\<open>emit\<close> is not reached and
  no text is produced.
\<close>

theorem unknown_opcode_rejected_before_emission:
  assumes "lex_list src = Inr tokens" and "parse (Parser tokens) = Inr root"
    and "blk \<in> set (blocks root)" and "st \<in> set (statements blk)"
    and "OPS_ARITY (op st) = None"
  shows "\<exists>m. semantic root = Inl (SemanticError m) \<and> compile src = Inl (SemanticError m)"
proof -
  from semantic_blocks_unknown [OF assms(3-5)] obtain m
    where "semantic_blocks (blocks root) {} = Inl (SemanticError m)" by blast
  then have "semantic root = Inl (SemanticError m)"
    by (simp add: semantic_def)
  with assms(1,2) show ?thesis
    by (simp add: compile_def)
qed

theorem unknown_opcode_rejected_before_emission_witness:
  "\<exists>m. semantic \<lparr>blocks = [\<lparr>gate = ''g'', statements =
              [\<lparr>dest = ''x'', op = ''FOO'', args = [Num 1]\<rparr>]\<rparr>]\<rparr> = Inl (SemanticError m)
       \<and> compile ''[g]{x:foo 1;}'' = Inl (SemanticError m)"
proof -
  have l: "lex_list ''[g]{x:foo 1;}'' =
     Inr [Token ''LBRACKET'' ''['' 1 1, Token ''IDENT'' ''g'' 1 2, Token ''RBRACKET'' '']'' 1 3,
          Token ''LBRACE'' ''{'' 1 4, Token ''IDENT'' ''x'' 1 5, Token ''COLON'' '':'' 1 6,
          Token ''IDENT'' ''foo'' 1 7, Token ''NUMBER'' ''1'' 1 11, Token ''SEMI'' '';'' 1 12,
          Token ''RBRACE'' ''}'' 1 13]"
    by code_simp
  have p: "parse (Parser
         [Token ''LBRACKET'' ''['' 1 1, Token ''IDENT'' ''g'' 1 2, Token ''RBRACKET'' '']'' 1 3,
          Token ''LBRACE'' ''{'' 1 4, Token ''IDENT'' ''x'' 1 5, Token ''COLON'' '':'' 1 6,
          Token ''IDENT'' ''foo'' 1 7, Token ''NUMBER'' ''1'' 1 11, Token ''SEMI'' '';'' 1 12,
          Token ''RBRACE'' ''}'' 1 13]) =
     Inr \<lparr>blocks = [\<lparr>gate = ''g'', statements =
              [\<lparr>dest = ''x'', op = ''FOO'', args = [Num 1]\<rparr>]\<rparr>]\<rparr>"
    by code_simp
  have u: "OPS_ARITY (op \<lparr>dest = ''x'', op = ''FOO'', args = [Num 1]\<rparr>) = None"
    by (simp add: OPS_ARITY_def)
  show ?thesis
    by (rule unknown_opcode_rejected_before_emission
          [OF l p _ _ u, where blk = "\<lparr>gate = ''g'', statements =
              [\<lparr>dest = ''x'', op = ''FOO'', args = [Num 1]\<rparr>]\<rparr>"]) simp_all
qed

subsection \<open>The errors of the parser\<close>

lemma peek_cases: "peek p 0 \<in> set (toks p) \<or> peek p 0 = Token ''EOF'' [] (- 1) (- 1)"
  by (simp add: peek_def)

lemma expect_Inl: "expect types p = Inl e \<Longrightarrow> parse_error_of (toks p) e"
  unfolding parse_error_of_def
  using peek_cases [of p]
  by (auto simp: expect_def accept_def split: if_splits)

lemma arg_list_loop_Inl:
  "arg_list_loop acc p = Inl (ParseError m) \<Longrightarrow> parse_error_of (toks p) (ParseError m)"
proof (induction acc p rule: arg_list_loop.induct)
  case (1 acc p)
  show ?case
  proof (cases "expect [''IDENT'', ''NUMBER''] p")
    case (Inl e)
    with "1.prems" have "e = ParseError m"
      by (subst (asm) arg_list_loop.simps) simp
    with expect_Inl [OF Inl] show ?thesis by simp
  next
    case (Inr r)
    obtain tok p1 where r: "r = (tok, p1)" by (cases r)
    from Inr r have t: "toks p1 = toks p"
      by (auto dest: expect_Inr)
    obtain a where
      v: "(if tok_type tok = ''NUMBER''
           then (case py_int (tok_value tok) of Inl e \<Rightarrow> Inl e | Inr n \<Rightarrow> Inr (Num n))
           else Inr (Ident (tok_value tok))) = Inr a"
      using "1.prems" Inr r
      by (subst (asm) arg_list_loop.simps)
         (auto simp: py_int_def split: sum.splits if_splits)
    obtain opt p2 where c: "accept [''COMMA''] p1 = (opt, p2)"
      by (cases "accept [''COMMA''] p1")
    show ?thesis
    proof (cases opt)
      case None
      with "1.prems" Inr r v c show ?thesis
        by (subst (asm) arg_list_loop.simps) simp
    next
      case (Some comma)
      with c have t2: "toks p2 = toks p1"
        by (auto dest: accept_Some)
      from "1.prems" Inr r v c Some have "arg_list_loop (acc @ [a]) p2 = Inl (ParseError m)"
        by (subst (asm) arg_list_loop.simps) simp
      with "1.IH" Inr r v c Some have "parse_error_of (toks p2) (ParseError m)"
        by (metis (no_types, lifting))
      with t t2 show ?thesis by simp
    qed
  qed
qed


lemma statement_Inl:
  assumes "statement p = Inl (ParseError m)"
  shows "parse_error_of (toks p) (ParseError m)"
proof (cases "expect [''IDENT''] p")
  case (Inl e)
  with assms have "e = ParseError m" by (simp add: statement_def)
  with expect_Inl [OF Inl] show ?thesis by simp
next
  case a: (Inr r1)
  obtain d p1 where r1: "r1 = (d, p1)" by (cases r1)
  from a r1 have t1: "toks p1 = toks p" by (auto dest: expect_Inr)
  show ?thesis
  proof (cases "expect [''COLON''] p1")
    case (Inl e)
    with assms a r1 have "e = ParseError m" by (simp add: statement_def)
    with expect_Inl [OF Inl] t1 show ?thesis by simp
  next
    case b: (Inr r2)
    obtain colon p2 where r2: "r2 = (colon, p2)" by (cases r2)
    from b r2 have t2: "toks p2 = toks p1" by (auto dest: expect_Inr)
    show ?thesis
    proof (cases "expect [''IDENT''] p2")
      case (Inl e)
      with assms a r1 b r2 have "e = ParseError m" by (simp add: statement_def)
      with expect_Inl [OF Inl] t1 t2 show ?thesis by simp
    next
      case c: (Inr r3)
      obtain opc p3 where r3: "r3 = (opc, p3)" by (cases r3)
      from c r3 have t3: "toks p3 = toks p2" by (auto dest: expect_Inr)
      from assms a r1 b r2 c r3 have "arg_list_loop [] p3 = Inl (ParseError m)"
        by (auto simp: statement_def arg_list_def split: sum.splits)
      from arg_list_loop_Inl [OF this] t1 t2 t3 show ?thesis by simp
    qed
  qed
qed

lemma block_loop_Inl:
  "block_loop stmts p = Inl (ParseError m) \<Longrightarrow> parse_error_of (toks p) (ParseError m)"
proof (induction stmts p rule: block_loop.induct)
  case (1 stmts p)
  from "1.prems" have ne: "tok_type (peek p 0) \<noteq> ''RBRACE''"
    by (subst (asm) block_loop.simps) (simp split: if_splits)
  show ?case
  proof (cases "statement p")
    case (Inl e)
    with "1.prems" ne have "statement p = Inl (ParseError m)"
      by (subst (asm) block_loop.simps) simp
    then show ?thesis by (rule statement_Inl)
  next
    case a: (Inr r1)
    obtain st p1 where r1: "r1 = (st, p1)" by (cases r1)
    from a r1 have t1: "toks p1 = toks p" by (auto dest: statement_mono)
    show ?thesis
    proof (cases "expect [''SEMI''] p1")
      case (Inl e)
      with "1.prems" ne a r1 have "e = ParseError m"
        by (subst (asm) block_loop.simps) simp
      with expect_Inl [OF Inl] t1 show ?thesis by simp
    next
      case b: (Inr r2)
      obtain semi p2 where r2: "r2 = (semi, p2)" by (cases r2)
      from b r2 have t2: "toks p2 = toks p1" by (auto dest: expect_Inr)
      from "1.prems" ne a r1 b r2 have "block_loop (stmts @ [st]) p2 = Inl (ParseError m)"
        by (subst (asm) block_loop.simps) simp
      from "1.IH" [OF ne a [unfolded r1] refl b [unfolded r2] refl this] t1 t2
      show ?thesis by simp
    qed
  qed
qed

lemma block_Inl:
  assumes "block p = Inl (ParseError m)"
  shows "parse_error_of (toks p) (ParseError m)"
proof (cases "expect [''LBRACKET''] p")
  case (Inl e)
  with assms have "e = ParseError m" by (simp add: block_def)
  with expect_Inl [OF Inl] show ?thesis by simp
next
  case a: (Inr r1)
  obtain x1 p1 where r1: "r1 = (x1, p1)" by (cases r1)
  from a r1 have t1: "toks p1 = toks p" by (auto dest: expect_Inr)
  show ?thesis
  proof (cases "expect [''IDENT''] p1")
    case (Inl e)
    with assms a r1 have "e = ParseError m" by (simp add: block_def)
    with expect_Inl [OF Inl] t1 show ?thesis by simp
  next
    case b: (Inr r2)
    obtain g p2 where r2: "r2 = (g, p2)" by (cases r2)
    from b r2 have t2: "toks p2 = toks p1" by (auto dest: expect_Inr)
    show ?thesis
    proof (cases "expect [''RBRACKET''] p2")
      case (Inl e)
      with assms a r1 b r2 have "e = ParseError m" by (simp add: block_def)
      with expect_Inl [OF Inl] t1 t2 show ?thesis by simp
    next
      case c: (Inr r3)
      obtain x3 p3 where r3: "r3 = (x3, p3)" by (cases r3)
      from c r3 have t3: "toks p3 = toks p2" by (auto dest: expect_Inr)
      show ?thesis
      proof (cases "expect [''LBRACE''] p3")
        case (Inl e)
        with assms a r1 b r2 c r3 have "e = ParseError m" by (simp add: block_def)
        with expect_Inl [OF Inl] t1 t2 t3 show ?thesis by simp
      next
        case d: (Inr r4)
        obtain x4 p4 where r4: "r4 = (x4, p4)" by (cases r4)
        from d r4 have t4: "toks p4 = toks p3" by (auto dest: expect_Inr)
        show ?thesis
        proof (cases "block_loop [] p4")
          case (Inl e)
          with assms a r1 b r2 c r3 d r4 have "block_loop [] p4 = Inl (ParseError m)"
            by (simp add: block_def)
          from block_loop_Inl [OF this] t1 t2 t3 t4 show ?thesis by simp
        next
          case e: (Inr r5)
          obtain stmts p5 where r5: "r5 = (stmts, p5)" by (cases r5)
          from e r5 have t5: "toks p5 = toks p4" by (auto dest: block_loop_mono)
          from assms a r1 b r2 c r3 d r4 e r5
          have "expect [''RBRACE''] p5 = Inl (ParseError m)"
            by (auto simp: block_def split: sum.splits)
          from expect_Inl [OF this] t1 t2 t3 t4 t5 show ?thesis by simp
        qed
      qed
    qed
  qed
qed

lemma parse_loop_Inl:
  "parse_loop blks p = Inl (ParseError m) \<Longrightarrow> parse_error_of (toks p) (ParseError m)"
proof (induction blks p rule: parse_loop.induct)
  case (1 blks p)
  from "1.prems" have ne: "tok_type (peek p 0) \<noteq> ''EOF''"
    by (subst (asm) parse_loop.simps) (simp split: if_splits)
  show ?case
  proof (cases "block p")
    case (Inl e)
    with "1.prems" ne have "block p = Inl (ParseError m)"
      by (subst (asm) parse_loop.simps) simp
    then show ?thesis by (rule block_Inl)
  next
    case a: (Inr r1)
    obtain b p1 where r1: "r1 = (b, p1)" by (cases r1)
    from a r1 have t1: "toks p1 = toks p" by (auto dest: block_mono)
    from "1.prems" ne a r1 have "parse_loop (blks @ [b]) p1 = Inl (ParseError m)"
      by (subst (asm) parse_loop.simps) simp
    from "1.IH" [OF ne a [unfolded r1] refl this] t1 show ?thesis by simp
  qed
qed

lemma parse_Inl:
  "parse (Parser ts) = Inl (ParseError m) \<Longrightarrow> parse_error_of ts (ParseError m)"
  using parse_loop_Inl [of "[]" "Parser ts" m] by (simp add: parse_def Parser_def)

text \<open>
  Claim C7, as amended. \<^verbatim>\<open>expect\<close> raises exactly when the kind of the next token
  is not among the expected kinds, and the error is then
  \<^verbatim>\<open>Expected <kinds joined by /> at <line>:<col>\<close> with the line and column of that
  token (\<^verbatim>\<open>-1:-1\<close> at the end of the input). Every parse error that the parser raises
  on a token list has this form, for a token of the list or the end of the input. The
  message is built from the expected kinds and the position only.
\<close>

theorem parse_error_contents:
  "((expect types p = Inl e) =
      (tok_type (peek p 0) \<notin> set types \<and>
       e = ParseError (''Expected '' @ join ''/'' types @ '' at ''
                       @ str_int (tok_line (peek p 0)) @ '':''
                       @ str_int (tok_col (peek p 0)))))
   \<and> (parse (Parser ts) = Inl (ParseError m) \<longrightarrow> parse_error_of ts (ParseError m))"
  using parse_Inl [of ts m] by (auto simp: expect_def accept_def)

theorem parse_error_contents_witness:
  "parse (Parser [Token ''LBRACKET'' ''['' 1 1, Token ''IDENT'' ''g'' 1 2,
                  Token ''RBRACKET'' '']'' 1 3, Token ''SEMI'' '';'' 1 4])
     = Inl (ParseError ''Expected LBRACE at 1:4'')
   \<and> parse_error_of [Token ''LBRACKET'' ''['' 1 1, Token ''IDENT'' ''g'' 1 2,
                      Token ''RBRACKET'' '']'' 1 3, Token ''SEMI'' '';'' 1 4]
        (ParseError ''Expected LBRACE at 1:4'')"
proof -
  have h: "parse (Parser [Token ''LBRACKET'' ''['' 1 1, Token ''IDENT'' ''g'' 1 2,
                          Token ''RBRACKET'' '']'' 1 3, Token ''SEMI'' '';'' 1 4])
             = Inl (ParseError ''Expected LBRACE at 1:4'')"
    by code_simp
  from parse_error_contents [THEN conjunct2, THEN mp, OF h] h show ?thesis
    by (rule conjI [rotated])
qed

text \<open>
  The claim as stated fails: two different offending tokens at the same position give
  the same error, so the error does not carry the offending token.
\<close>

theorem parse_error_omits_token:
  "expect [''LBRACE''] (Parser [Token ''SEMI'' '';'' 1 4])
     = Inl (ParseError ''Expected LBRACE at 1:4'')
   \<and> expect [''LBRACE''] (Parser [Token ''COLON'' '':'' 1 4])
     = Inl (ParseError ''Expected LBRACE at 1:4'')
   \<and> peek (Parser [Token ''SEMI'' '';'' 1 4]) 0 = Token ''SEMI'' '';'' 1 4
   \<and> peek (Parser [Token ''COLON'' '':'' 1 4]) 0 = Token ''COLON'' '':'' 1 4
   \<and> compile ''[g];'' = Inl (ParseError ''Expected LBRACE at 1:4'')
   \<and> compile ''[g]:'' = Inl (ParseError ''Expected LBRACE at 1:4'')"
  by code_simp

subsection \<open>Runs of the emitter\<close>

lemma emit_stmt_LOOP:
  "op st = ''LOOP'' \<Longrightarrow> emit_stmt w st lbl = Inr (w', l') \<Longrightarrow>
     \<exists>c t a. args st = [c, t, a] \<and> l' = lbl + 1
       \<and> w' = w @ loop_text (start_label lbl) (end_label lbl) c t a"
  by (auto simp: emit_stmt_def Let_def split: list.splits)

lemma emit_stmt_other:
  "op st \<noteq> ''LOOP'' \<Longrightarrow> emit_stmt w st lbl = Inr (w', l') \<Longrightarrow> l' = lbl \<and> (\<exists>t. w' = w @ t)"
  by (auto simp: emit_stmt_def Let_def split: if_splits)

lemma emit_from_eq:
  "emit_from w sts blks lbl =
     (case emit_stmts w sts lbl of Inl e \<Rightarrow> Inl e | Inr (w', lbl') \<Rightarrow> emit_blocks w' blks lbl')"
proof (induction w sts blks lbl rule: emit_from.induct)
  case (1 w lbl)
  show ?case by simp
next
  case (2 w blk blks lbl)
  then show ?case by simp
next
  case (3 w st sts blks lbl)
  then show ?case by (auto split: sum.splits)
qed

lemma emit_blocks_emit_from: "emit_blocks w blks lbl = emit_from w [] blks lbl"
  by (simp add: emit_from_eq)

lemma emit_from_extends:
  "emit_from w sts blks lbl = Inr (w', l') \<Longrightarrow> \<exists>t. w' = w @ t"
proof (induction w sts blks lbl rule: emit_from.induct)
  case (1 w lbl)
  then show ?case by simp
next
  case (2 w blk blks lbl)
  then show ?case by auto
next
  case (3 w st sts blks lbl)
  from "3.prems" obtain w1 l1 where a: "emit_stmt w st lbl = Inr (w1, l1)"
    and b: "emit_from w1 sts blks l1 = Inr (w', l')"
    by (auto split: sum.splits)
  from a obtain t where "w1 = w @ t"
    by (cases "op st = ''LOOP''") (auto dest: emit_stmt_LOOP emit_stmt_other)
  moreover from "3.IH" [OF a refl b] obtain t' where "w' = w1 @ t'" by blast
  ultimately show ?case by simp
qed

lemma emit_from_LOOP:
  "emit_from w sts blks lbl = Inr (w', l') \<Longrightarrow>
   sts @ concat (map statements blks) = pre @ s # post \<Longrightarrow> op s = ''LOOP'' \<Longrightarrow>
   \<exists>t c st a sts' blks'.
     args s = [c, st, a]
     \<and> sts' @ concat (map statements blks') = post
     \<and> emit_from (w @ t @ loop_text (start_label (lbl + int (length (filter (\<lambda>x. op x = ''LOOP'') pre))))
                                    (end_label (lbl + int (length (filter (\<lambda>x. op x = ''LOOP'') pre))))
                                    c st a)
          sts' blks' (lbl + int (length (filter (\<lambda>x. op x = ''LOOP'') pre)) + 1) = Inr (w', l')"
proof (induction w sts blks lbl arbitrary: pre rule: emit_from.induct)
  case (1 w lbl)
  then show ?case by simp
next
  case (2 w blk blks lbl)
  from "2.prems" have a: "emit_from (w @ ''    ; --- Gate ['' @ gate blk @ ''] ---\<newline>'')
                             (statements blk) blks lbl = Inr (w', l')"
    and b: "statements blk @ concat (map statements blks) = pre @ s # post"
    by simp_all
  from "2.IH" [OF a b "2.prems"(3)] show ?case
    by (metis append.assoc)
next
  case (3 w x sts blks lbl)
  from "3.prems"(1) obtain w1 l1 where a: "emit_stmt w x lbl = Inr (w1, l1)"
    and b: "emit_from w1 sts blks l1 = Inr (w', l')"
    by (auto split: sum.splits)
  show ?case
  proof (cases pre)
    case Nil
    with "3.prems"(2) have x: "x = s" and p: "sts @ concat (map statements blks) = post"
      by simp_all
    from emit_stmt_LOOP [OF _ a] x "3.prems"(3) obtain c st a' where
      "args s = [c, st, a']" "l1 = lbl + 1"
      "w1 = w @ loop_text (start_label lbl) (end_label lbl) c st a'" by auto
    with b p Nil show ?thesis
      by (intro exI [of _ "[]"] exI [of _ c] exI [of _ st] exI [of _ a'] exI [of _ sts]
                exI [of _ blks]) simp
  next
    case (Cons y pre')
    with "3.prems"(2) have y: "y = x" and p: "sts @ concat (map statements blks) = pre' @ s # post"
      by simp_all
    from "3.IH" [OF a refl b p "3.prems"(3)] obtain t c st a' sts' blks' where
      r: "args s = [c, st, a']" "sts' @ concat (map statements blks') = post"
         "emit_from (w1 @ t @ loop_text (start_label (l1 + int (length (filter (\<lambda>x. op x = ''LOOP'') pre'))))
                                    (end_label (l1 + int (length (filter (\<lambda>x. op x = ''LOOP'') pre'))))
                                    c st a')
            sts' blks' (l1 + int (length (filter (\<lambda>x. op x = ''LOOP'') pre')) + 1) = Inr (w', l')"
      by blast
    from a obtain t1 where w1: "w1 = w @ t1"
      and l1: "l1 = lbl + int (length (filter (\<lambda>x. op x = ''LOOP'') [x]))"
      by (cases "op x = ''LOOP''") (auto dest: emit_stmt_LOOP emit_stmt_other)
    have n: "l1 + int (length (filter (\<lambda>x. op x = ''LOOP'') pre'))
               = lbl + int (length (filter (\<lambda>x. op x = ''LOOP'') pre))"
      using l1 Cons y by simp
    from r(3) show ?thesis
      unfolding n w1 using r(1,2)
      by (intro exI [of _ "t1 @ t"] exI [of _ c] exI [of _ st] exI [of _ a'] exI [of _ sts']
                exI [of _ blks']) simp
  qed
qed

subsection \<open>The emitter on validated programs\<close>

lemma OPS_ARITY_Some:
  "OPS_ARITY opc = Some n \<Longrightarrow>
     (opc \<in> set [''SET'', ''ADD'', ''SUB'', ''MUL'', ''DIV'', ''NOT'', ''DISPLAY''] \<and> n = 1)
     \<or> (opc \<in> set [''COMPARE'', ''AND'', ''OR'', ''XOR'', ''SHIFT_LEFT'', ''SHIFT_RIGHT'',
                     ''JUMP_IF''] \<and> n = 2)
     \<or> (opc = ''LOOP'' \<and> n = 3)"
  by (auto simp: OPS_ARITY_def split: if_splits)

lemma emit_stmt_valid:
  assumes "OPS_ARITY (op st) = Some (length (args st))"
  shows "\<exists>w' l'. emit_stmt w st lbl = Inr (w', l')"
proof -
  from OPS_ARITY_Some [OF assms] consider
      "op st \<in> set [''SET'', ''ADD'', ''SUB'', ''MUL'', ''DIV'', ''NOT'', ''DISPLAY'']"
    | "op st \<in> set [''COMPARE'', ''AND'', ''OR'', ''XOR'', ''SHIFT_LEFT'', ''SHIFT_RIGHT'']"
    | "op st = ''JUMP_IF''" "length (args st) = 2"
    | "op st = ''LOOP''" "length (args st) = 3"
    by auto
  then show ?thesis
  proof cases
    case 1
    then show ?thesis by (auto simp: emit_stmt_def Let_def)
  next
    case 2
    then show ?thesis by (auto simp: emit_stmt_def Let_def)
  next
    case 3
    then show ?thesis by (simp add: emit_stmt_def Let_def)
  next
    case 4
    from 4(2) obtain a b c where "args st = [a, b, c]"
      by (auto simp: numeral_3_eq_3 length_Suc_conv)
    with 4(1) show ?thesis by (simp add: emit_stmt_def Let_def)
  qed
qed

lemma emit_from_valid:
  "\<forall>st\<in>set sts. OPS_ARITY (op st) = Some (length (args st)) \<Longrightarrow>
   \<forall>blk\<in>set blks. \<forall>st\<in>set (statements blk). OPS_ARITY (op st) = Some (length (args st)) \<Longrightarrow>
   \<exists>w' l'. emit_from w sts blks lbl = Inr (w', l')"
proof (induction w sts blks lbl rule: emit_from.induct)
  case (1 w lbl)
  show ?case by simp
next
  case (2 w blk blks lbl)
  then show ?case by simp
next
  case (3 w st sts blks lbl)
  from "3.prems"(1) have "OPS_ARITY (op st) = Some (length (args st))" by simp
  from emit_stmt_valid [OF this] obtain w1 l1 where a: "emit_stmt w st lbl = Inr (w1, l1)"
    by blast
  from "3.IH" [OF a refl] "3.prems" obtain w' l' where "emit_from w1 sts blks l1 = Inr (w', l')"
    by auto
  with a show ?case by simp
qed

lemma semantic_stmts_valid:
  "semantic_stmts g sts S = Inr S' \<Longrightarrow>
     \<forall>st\<in>set sts. OPS_ARITY (op st) = Some (length (args st))"
  by (induction sts arbitrary: S) (auto split: sum.splits dest: semantic_stmt_Inr)

lemma semantic_blocks_valid:
  "semantic_blocks blks S = Inr S' \<Longrightarrow>
     \<forall>blk\<in>set blks. \<forall>st\<in>set (statements blk). OPS_ARITY (op st) = Some (length (args st))"
proof (induction blks arbitrary: S)
  case Nil
  show ?case by simp
next
  case (Cons blk blks)
  from Cons.prems obtain S1 where a: "semantic_stmts (gate blk) (statements blk) S = Inr S1"
    and b: "semantic_blocks blks S1 = Inr S'"
    by (auto split: sum.splits)
  from semantic_stmts_valid [OF a] Cons.IH [OF b] show ?case by simp
qed

lemma emit_valid:
  assumes "semantic root = Inr syms"
  shows "\<exists>body. emit root syms' = Inr (emit_header syms' @ body)"
proof -
  from assms obtain S where "semantic_blocks (blocks root) {} = Inr S"
    by (auto simp: semantic_def split: sum.splits)
  from semantic_blocks_valid [OF this]
  obtain w' l' where r: "emit_from (emit_header syms') [] (blocks root) 0 = Inr (w', l')"
    using emit_from_valid [of "[]" "blocks root" "emit_header syms'" 0] by auto
  from emit_from_extends [OF r] obtain t where "w' = emit_header syms' @ t" by blast
  with r show ?thesis
    by (simp add: emit_def emit_blocks_emit_from)
qed

text \<open>
  Claim C10. The validator adds every identifier argument to the symbols, whatever the
  opcode. So in a program that passes the validator, the name given as second argument
  of a \<^verbatim>\<open>JUMP_IF\<close> statement is in the symbol list, the emitter succeeds and
  declares that name in \<^verbatim>\<open>section .bss\<close> with the line of four spaces, the name
  padded with spaces to 16 characters and \<^verbatim>\<open>resq 1\<close> (one reserved 64-bit cell),
  and the group emitted for the statement uses the same name as the target of
  \<^verbatim>\<open>jne\<close>.
\<close>

theorem jump_target_declared_as_storage:
  assumes "semantic root = Inr syms"
    and "blk \<in> set (blocks root)" and "st \<in> set (statements blk)"
    and "op st = ''JUMP_IF''" and "args st ! 1 = Ident t"
  shows "t \<in> set syms
    \<and> (\<exists>xs ys body. syms = xs @ t # ys \<and>
          emit root syms = Inr (
            ''; generated by celc.py\<newline>section .data\<newline>''
            @ ''    fmt_dec db '' @ [CHR 0x22] @ ''%lld'' @ [CHR 0x22] @ '', 10, 0\<newline>''
            @ ''section .bss\<newline>''
            @ concat (map (\<lambda>s. ''    '' @ s @ replicate (16 - length s) CHR '' ''
                               @ '' resq 1\<newline>'') xs)
            @ ''    '' @ t @ replicate (16 - length t) CHR '' '' @ '' resq 1\<newline>''
            @ concat (map (\<lambda>s. ''    '' @ s @ replicate (16 - length s) CHR '' ''
                               @ '' resq 1\<newline>'') ys)
            @ ''section .text\<newline>    extern printf\<newline>    global main\<newline>\<newline>main:\<newline>''
            @ body))
    \<and> emit_stmt w st lbl = Inr (w @ ''    jne     '' @ t @ ''    ; JUMP_IF\<newline>'', lbl)"
proof -
  from assms(1) obtain S where s: "semantic_blocks (blocks root) {} = Inr S"
    by (auto simp: semantic_def split: sum.splits)
  from semantic_blocks_valid [OF s] assms(2,3)
  have "OPS_ARITY (op st) = Some (length (args st))" by blast
  with assms(4) have len: "length (args st) = 2"
    by (simp add: OPS_ARITY_def)
  then have "args st ! 1 \<in> set (args st)" by simp
  with assms(5) have "Ident t \<in> set (args st)" by simp
  with semantic_Inr [OF assms(1)] assms(2,3) have mem: "t \<in> set syms" by blast
  then obtain xs ys where split: "syms = xs @ t # ys"
    by (auto simp: in_set_conv_decomp)
  from emit_valid [OF assms(1), of syms] obtain body
    where "emit root syms = Inr (emit_header syms @ body)" by blast
  then have "emit root syms = Inr (
            ''; generated by celc.py\<newline>section .data\<newline>''
            @ ''    fmt_dec db '' @ [CHR 0x22] @ ''%lld'' @ [CHR 0x22] @ '', 10, 0\<newline>''
            @ ''section .bss\<newline>''
            @ concat (map (\<lambda>s. ''    '' @ s @ replicate (16 - length s) CHR '' ''
                               @ '' resq 1\<newline>'') xs)
            @ ''    '' @ t @ replicate (16 - length t) CHR '' '' @ '' resq 1\<newline>''
            @ concat (map (\<lambda>s. ''    '' @ s @ replicate (16 - length s) CHR '' ''
                               @ '' resq 1\<newline>'') ys)
            @ ''section .text\<newline>    extern printf\<newline>    global main\<newline>\<newline>main:\<newline>''
            @ body)"
    unfolding emit_header_def split resq_line_def [abs_def] pad16_def by simp
  moreover from assms(4,5) len
  have "emit_stmt w st lbl = Inr (w @ ''    jne     '' @ t @ ''    ; JUMP_IF\<newline>'', lbl)"
    by (simp add: emit_stmt_def Let_def)
  ultimately show ?thesis using mem split by blast
qed

theorem jump_target_declared_as_storage_witness:
  "semantic \<lparr>blocks = [\<lparr>gate = ''s'', statements =
        [\<lparr>dest = ''a'', op = ''COMPARE'', args = [Ident ''b'', Ident ''c'']\<rparr>,
         \<lparr>dest = ''a'', op = ''JUMP_IF'', args = [Ident ''b'', Ident ''loopgate'']\<rparr>]\<rparr>]\<rparr>
     = Inr [''a'', ''b'', ''c'', ''loopgate'']
   \<and> ''loopgate'' \<in> set [''a'', ''b'', ''c'', ''loopgate'']
   \<and> (\<exists>xs ys body. [''a'', ''b'', ''c'', ''loopgate''] = xs @ ''loopgate'' # ys \<and>
          emit \<lparr>blocks = [\<lparr>gate = ''s'', statements =
                  [\<lparr>dest = ''a'', op = ''COMPARE'', args = [Ident ''b'', Ident ''c'']\<rparr>,
                   \<lparr>dest = ''a'', op = ''JUMP_IF'', args = [Ident ''b'', Ident ''loopgate'']\<rparr>]\<rparr>]\<rparr>
               [''a'', ''b'', ''c'', ''loopgate'']
          = Inr (
            ''; generated by celc.py\<newline>section .data\<newline>''
            @ ''    fmt_dec db '' @ [CHR 0x22] @ ''%lld'' @ [CHR 0x22] @ '', 10, 0\<newline>''
            @ ''section .bss\<newline>''
            @ concat (map (\<lambda>s. ''    '' @ s @ replicate (16 - length s) CHR '' ''
                               @ '' resq 1\<newline>'') xs)
            @ ''    '' @ ''loopgate'' @ replicate (16 - length ''loopgate'') CHR '' ''
            @ '' resq 1\<newline>''
            @ concat (map (\<lambda>s. ''    '' @ s @ replicate (16 - length s) CHR '' ''
                               @ '' resq 1\<newline>'') ys)
            @ ''section .text\<newline>    extern printf\<newline>    global main\<newline>\<newline>main:\<newline>''
            @ body))
   \<and> emit_stmt [] \<lparr>dest = ''a'', op = ''JUMP_IF'', args = [Ident ''b'', Ident ''loopgate'']\<rparr> 0
       = Inr ([] @ ''    jne     '' @ ''loopgate'' @ ''    ; JUMP_IF\<newline>'', 0)
   \<and> emit \<lparr>blocks = [\<lparr>gate = ''s'', statements =
                  [\<lparr>dest = ''a'', op = ''COMPARE'', args = [Ident ''b'', Ident ''c'']\<rparr>,
                   \<lparr>dest = ''a'', op = ''JUMP_IF'', args = [Ident ''b'', Ident ''loopgate'']\<rparr>]\<rparr>]\<rparr>
               [''a'', ''b'', ''c'', ''loopgate'']
       = Inr (''; generated by celc.py\<newline>''
              @ ''section .data\<newline>''
              @ ''    fmt_dec db '' @ [CHR 0x22] @ ''%lld'' @ [CHR 0x22] @ '', 10, 0\<newline>''
              @ ''section .bss\<newline>''
              @ ''    a                resq 1\<newline>''
              @ ''    b                resq 1\<newline>''
              @ ''    c                resq 1\<newline>''
              @ ''    loopgate         resq 1\<newline>''
              @ ''section .text\<newline>''
              @ ''    extern printf\<newline>''
              @ ''    global main\<newline>''
              @ ''\<newline>''
              @ ''main:\<newline>''
              @ ''    ; --- Gate [s] ---\<newline>''
              @ ''    mov     rax, [b]\<newline>''
              @ ''    cmp     rax, [c]\<newline>''
              @ ''    jne     loopgate    ; JUMP_IF\<newline>''
              @ ''    xor     rax, rax\<newline>''
              @ ''    ret\<newline>'')"
proof -
  have h: "semantic \<lparr>blocks = [\<lparr>gate = ''s'', statements =
        [\<lparr>dest = ''a'', op = ''COMPARE'', args = [Ident ''b'', Ident ''c'']\<rparr>,
         \<lparr>dest = ''a'', op = ''JUMP_IF'', args = [Ident ''b'', Ident ''loopgate'']\<rparr>]\<rparr>]\<rparr>
     = Inr [''a'', ''b'', ''c'', ''loopgate'']"
    by code_simp
  have e: "emit \<lparr>blocks = [\<lparr>gate = ''s'', statements =
                  [\<lparr>dest = ''a'', op = ''COMPARE'', args = [Ident ''b'', Ident ''c'']\<rparr>,
                   \<lparr>dest = ''a'', op = ''JUMP_IF'', args = [Ident ''b'', Ident ''loopgate'']\<rparr>]\<rparr>]\<rparr>
               [''a'', ''b'', ''c'', ''loopgate'']
       = Inr (''; generated by celc.py\<newline>''
              @ ''section .data\<newline>''
              @ ''    fmt_dec db '' @ [CHR 0x22] @ ''%lld'' @ [CHR 0x22] @ '', 10, 0\<newline>''
              @ ''section .bss\<newline>''
              @ ''    a                resq 1\<newline>''
              @ ''    b                resq 1\<newline>''
              @ ''    c                resq 1\<newline>''
              @ ''    loopgate         resq 1\<newline>''
              @ ''section .text\<newline>''
              @ ''    extern printf\<newline>''
              @ ''    global main\<newline>''
              @ ''\<newline>''
              @ ''main:\<newline>''
              @ ''    ; --- Gate [s] ---\<newline>''
              @ ''    mov     rax, [b]\<newline>''
              @ ''    cmp     rax, [c]\<newline>''
              @ ''    jne     loopgate    ; JUMP_IF\<newline>''
              @ ''    xor     rax, rax\<newline>''
              @ ''    ret\<newline>'')"
    by code_simp
  note t = jump_target_declared_as_storage [OF h,
          where blk = "\<lparr>gate = ''s'', statements =
             [\<lparr>dest = ''a'', op = ''COMPARE'', args = [Ident ''b'', Ident ''c'']\<rparr>,
              \<lparr>dest = ''a'', op = ''JUMP_IF'', args = [Ident ''b'', Ident ''loopgate'']\<rparr>]\<rparr>"
            and st = "\<lparr>dest = ''a'', op = ''JUMP_IF'', args = [Ident ''b'', Ident ''loopgate'']\<rparr>"
            and t = "''loopgate''" and w = "[]" and lbl = 0]
  have c: "''loopgate'' \<in> set [''a'', ''b'', ''c'', ''loopgate'']
   \<and> (\<exists>xs ys body. [''a'', ''b'', ''c'', ''loopgate''] = xs @ ''loopgate'' # ys \<and>
          emit \<lparr>blocks = [\<lparr>gate = ''s'', statements =
                  [\<lparr>dest = ''a'', op = ''COMPARE'', args = [Ident ''b'', Ident ''c'']\<rparr>,
                   \<lparr>dest = ''a'', op = ''JUMP_IF'', args = [Ident ''b'', Ident ''loopgate'']\<rparr>]\<rparr>]\<rparr>
               [''a'', ''b'', ''c'', ''loopgate'']
          = Inr (
            ''; generated by celc.py\<newline>section .data\<newline>''
            @ ''    fmt_dec db '' @ [CHR 0x22] @ ''%lld'' @ [CHR 0x22] @ '', 10, 0\<newline>''
            @ ''section .bss\<newline>''
            @ concat (map (\<lambda>s. ''    '' @ s @ replicate (16 - length s) CHR '' ''
                               @ '' resq 1\<newline>'') xs)
            @ ''    '' @ ''loopgate'' @ replicate (16 - length ''loopgate'') CHR '' ''
            @ '' resq 1\<newline>''
            @ concat (map (\<lambda>s. ''    '' @ s @ replicate (16 - length s) CHR '' ''
                               @ '' resq 1\<newline>'') ys)
            @ ''section .text\<newline>    extern printf\<newline>    global main\<newline>\<newline>main:\<newline>''
            @ body))
   \<and> emit_stmt [] \<lparr>dest = ''a'', op = ''JUMP_IF'', args = [Ident ''b'', Ident ''loopgate'']\<rparr> 0
       = Inr ([] @ ''    jne     '' @ ''loopgate'' @ ''    ; JUMP_IF\<newline>'', 0)"
    by (rule t) simp_all
  from h c e show ?thesis by (intro conjI) (elim conjE, assumption)+
qed

subsection \<open>The labels of \<^verbatim>\<open>LOOP\<close>\<close>

text \<open>
  Claim C3. In the run of the emitter on a validated program, a \<^verbatim>\<open>LOOP\<close>
  statement is written with the labels \<^verbatim>\<open>.Lloop<n>\<close> and \<^verbatim>\<open>.Lend<n>\<close>, where
  \<open>n\<close> is the number of \<^verbatim>\<open>LOOP\<close> statements before it in the program: the
  counter starts at 0 in every run and the numbering depends on the program only. For
  two \<^verbatim>\<open>LOOP\<close> statements of one program the output holds the group of the first
  with its labels before the group of the second with its labels, and no label of the
  one is a label of the other.
\<close>

theorem loop_labels_distinct_and_reproducible:
  assumes "semantic root = Inr syms"
    and "concat (map statements (blocks root)) = pre @ s1 # mid @ s2 # post"
    and "op s1 = ''LOOP''" and "op s2 = ''LOOP''"
  shows "\<exists>n1 n2 l1 e1 l2 e2 A B C c1 t1 a1 c2 t2 a2.
      n1 = length (filter (\<lambda>x. op x = ''LOOP'') pre)
    \<and> n2 = n1 + 1 + length (filter (\<lambda>x. op x = ''LOOP'') mid)
    \<and> l1 = ''.Lloop'' @ str_int (int n1) \<and> e1 = ''.Lend'' @ str_int (int n1)
    \<and> l2 = ''.Lloop'' @ str_int (int n2) \<and> e2 = ''.Lend'' @ str_int (int n2)
    \<and> args s1 = [c1, t1, a1] \<and> args s2 = [c2, t2, a2]
    \<and> emit root syms = Inr (
         emit_header syms @ A
         @ ''    mov     rax, ['' @ fmt_arg c1 @ '']\<newline>'' @ l1 @ '':\<newline>    cmp     rax, 0\<newline>    je      '' @ e1
           @ ''\<newline>    add     ['' @ fmt_arg a1 @ ''], '' @ val t1 @ ''\<newline>    dec     rax\<newline>    jmp     '' @ l1
           @ ''\<newline>'' @ e1 @ '':\<newline>    mov     ['' @ fmt_arg c1 @ ''], rax\<newline>''
         @ B
         @ ''    mov     rax, ['' @ fmt_arg c2 @ '']\<newline>'' @ l2 @ '':\<newline>    cmp     rax, 0\<newline>    je      '' @ e2
           @ ''\<newline>    add     ['' @ fmt_arg a2 @ ''], '' @ val t2 @ ''\<newline>    dec     rax\<newline>    jmp     '' @ l2
           @ ''\<newline>'' @ e2 @ '':\<newline>    mov     ['' @ fmt_arg c2 @ ''], rax\<newline>''
         @ C @ ''    xor     rax, rax\<newline>    ret\<newline>'')
    \<and> l1 \<noteq> l2 \<and> e1 \<noteq> e2 \<and> l1 \<noteq> e2 \<and> e1 \<noteq> l2"
proof -
  define n1 where "n1 = length (filter (\<lambda>x. op x = ''LOOP'') pre)"
  define n2 where "n2 = n1 + 1 + length (filter (\<lambda>x. op x = ''LOOP'') mid)"
  define l1 where "l1 = ''.Lloop'' @ str_int (int n1)"
  define e1 where "e1 = ''.Lend'' @ str_int (int n1)"
  define l2 where "l2 = ''.Lloop'' @ str_int (int n2)"
  define e2 where "e2 = ''.Lend'' @ str_int (int n2)"
  from emit_valid [OF assms(1), of syms] obtain body
    where "emit root syms = Inr (emit_header syms @ body)" by blast
  then obtain w' l' where run: "emit_from (emit_header syms) [] (blocks root) 0 = Inr (w', l')"
    and out: "emit root syms = Inr (w' @ ''    xor     rax, rax\<newline>    ret\<newline>'')"
    by (auto simp: emit_def emit_blocks_emit_from split: sum.splits)
  from assms(2) have f1: "[] @ concat (map statements (blocks root)) = pre @ s1 # (mid @ s2 # post)"
    by simp
  have k0: "0 + int (length (filter (\<lambda>x. op x = ''LOOP'') pre)) = int n1"
    by (simp add: n1_def)
  from emit_from_LOOP [OF run f1 assms(3), unfolded k0] obtain A c1 t1 a1 sts' blks' where
    a1: "args s1 = [c1, t1, a1]"
    and f2: "sts' @ concat (map statements blks') = mid @ s2 # post"
    and run2: "emit_from (emit_header syms @ A
                  @ loop_text (start_label (int n1)) (end_label (int n1)) c1 t1 a1)
                sts' blks' (int n1 + 1) = Inr (w', l')"
    by blast
  have k: "int n1 + 1 + int (length (filter (\<lambda>x. op x = ''LOOP'') mid)) = int n2"
    by (simp add: n2_def)
  from emit_from_LOOP [OF run2 f2 assms(4), unfolded k] obtain B c2 t2 a2 sts'' blks'' where
    a2: "args s2 = [c2, t2, a2]"
    and run3: "emit_from ((emit_header syms @ A
                  @ loop_text (start_label (int n1)) (end_label (int n1)) c1 t1 a1) @ B
                  @ loop_text (start_label (int n2)) (end_label (int n2)) c2 t2 a2)
                sts'' blks'' (int n2 + 1) = Inr (w', l')"
    by blast
  from emit_from_extends [OF run3] obtain C where
    "w' = ((emit_header syms @ A
                  @ loop_text (start_label (int n1)) (end_label (int n1)) c1 t1 a1) @ B
                  @ loop_text (start_label (int n2)) (end_label (int n2)) c2 t2 a2) @ C"
    by blast
  with out have e: "emit root syms = Inr (
         emit_header syms @ A
         @ ''    mov     rax, ['' @ fmt_arg c1 @ '']\<newline>'' @ l1 @ '':\<newline>    cmp     rax, 0\<newline>    je      '' @ e1
           @ ''\<newline>    add     ['' @ fmt_arg a1 @ ''], '' @ val t1 @ ''\<newline>    dec     rax\<newline>    jmp     '' @ l1
           @ ''\<newline>'' @ e1 @ '':\<newline>    mov     ['' @ fmt_arg c1 @ ''], rax\<newline>''
         @ B
         @ ''    mov     rax, ['' @ fmt_arg c2 @ '']\<newline>'' @ l2 @ '':\<newline>    cmp     rax, 0\<newline>    je      '' @ e2
           @ ''\<newline>    add     ['' @ fmt_arg a2 @ ''], '' @ val t2 @ ''\<newline>    dec     rax\<newline>    jmp     '' @ l2
           @ ''\<newline>'' @ e2 @ '':\<newline>    mov     ['' @ fmt_arg c2 @ ''], rax\<newline>''
         @ C @ ''    xor     rax, rax\<newline>    ret\<newline>'')"
    by (simp add: loop_text_def start_label_def end_label_def l1_def e1_def l2_def e2_def)
  have "n1 \<noteq> n2" by (simp add: n2_def)
  then have "start_label (int n1) \<noteq> start_label (int n2)"
     "end_label (int n1) \<noteq> end_label (int n2)"
    by (auto dest: start_label_inj end_label_inj)
  then have d: "l1 \<noteq> l2" "e1 \<noteq> e2"
    by (simp_all add: start_label_def end_label_def l1_def e1_def l2_def e2_def)
  have x: "l1 \<noteq> e2" "e1 \<noteq> l2"
    by (simp_all add: l1_def e1_def l2_def e2_def)
  show ?thesis
    apply (rule exI [of _ n1], rule exI [of _ n2])
    apply (rule exI [of _ l1], rule exI [of _ e1], rule exI [of _ l2], rule exI [of _ e2])
    apply (rule exI [of _ A], rule exI [of _ B], rule exI [of _ C])
    apply (rule exI [of _ c1], rule exI [of _ t1], rule exI [of _ a1])
    apply (rule exI [of _ c2], rule exI [of _ t2], rule exI [of _ a2])
    apply (intro conjI)
    apply (rule n1_def n2_def l1_def e1_def l2_def e2_def a1 a2 e d x)+
    done
qed

theorem loop_labels_distinct_and_reproducible_witness:
  "semantic \<lparr>blocks =
       [\<lparr>gate = ''g'', statements = [\<lparr>dest = ''x'', op = ''LOOP'', args = [Ident ''c'', Num 1, Ident ''s'']\<rparr>]\<rparr>,
        \<lparr>gate = ''h'', statements = [\<lparr>dest = ''c'', op = ''SET'', args = [Num 3]\<rparr>,
             \<lparr>dest = ''y'', op = ''LOOP'', args = [Ident ''c'', Num 2, Ident ''s'']\<rparr>]\<rparr>]\<rparr>
     = Inr [''c'', ''s'', ''x'', ''y'']
   \<and> (\<exists>n1 n2 l1 e1 l2 e2 A B C c1 t1 a1 c2 t2 a2.
      n1 = length (filter (\<lambda>x. op x = ''LOOP'') ([] :: statement list))
    \<and> n2 = n1 + 1 + length (filter (\<lambda>x. op x = ''LOOP'') [\<lparr>dest = ''c'', op = ''SET'', args = [Num 3]\<rparr>])
    \<and> l1 = ''.Lloop'' @ str_int (int n1) \<and> e1 = ''.Lend'' @ str_int (int n1)
    \<and> l2 = ''.Lloop'' @ str_int (int n2) \<and> e2 = ''.Lend'' @ str_int (int n2)
    \<and> args \<lparr>dest = ''x'', op = ''LOOP'', args = [Ident ''c'', Num 1, Ident ''s'']\<rparr> = [c1, t1, a1] \<and> args \<lparr>dest = ''y'', op = ''LOOP'', args = [Ident ''c'', Num 2, Ident ''s'']\<rparr> = [c2, t2, a2]
    \<and> emit 
\<lparr>blocks =
       [\<lparr>gate = ''g'', statements = [\<lparr>dest = ''x'', op = ''LOOP'', args = [Ident ''c'', Num 1, Ident ''s'']\<rparr>]\<rparr>,
        \<lparr>gate = ''h'', statements = [\<lparr>dest = ''c'', op = ''SET'', args = [Num 3]\<rparr>,
             \<lparr>dest = ''y'', op = ''LOOP'', args = [Ident ''c'', Num 2, Ident ''s'']\<rparr>]\<rparr>]\<rparr>
           [''c'', ''s'', ''x'', ''y''] = Inr (
         emit_header [''c'', ''s'', ''x'', ''y''] @ A
         @ ''    mov     rax, ['' @ fmt_arg c1 @ '']\<newline>'' @ l1 @ '':\<newline>    cmp     rax, 0\<newline>    je      '' @ e1
           @ ''\<newline>    add     ['' @ fmt_arg a1 @ ''], '' @ val t1 @ ''\<newline>    dec     rax\<newline>    jmp     '' @ l1
           @ ''\<newline>'' @ e1 @ '':\<newline>    mov     ['' @ fmt_arg c1 @ ''], rax\<newline>''
         @ B
         @ ''    mov     rax, ['' @ fmt_arg c2 @ '']\<newline>'' @ l2 @ '':\<newline>    cmp     rax, 0\<newline>    je      '' @ e2
           @ ''\<newline>    add     ['' @ fmt_arg a2 @ ''], '' @ val t2 @ ''\<newline>    dec     rax\<newline>    jmp     '' @ l2
           @ ''\<newline>'' @ e2 @ '':\<newline>    mov     ['' @ fmt_arg c2 @ ''], rax\<newline>''
         @ C @ ''    xor     rax, rax\<newline>    ret\<newline>'')
    \<and> l1 \<noteq> l2 \<and> e1 \<noteq> e2 \<and> l1 \<noteq> e2 \<and> e1 \<noteq> l2)
   \<and> emit \<lparr>blocks =
       [\<lparr>gate = ''g'', statements = [\<lparr>dest = ''x'', op = ''LOOP'', args = [Ident ''c'', Num 1, Ident ''s'']\<rparr>]\<rparr>,
        \<lparr>gate = ''h'', statements = [\<lparr>dest = ''c'', op = ''SET'', args = [Num 3]\<rparr>,
             \<lparr>dest = ''y'', op = ''LOOP'', args = [Ident ''c'', Num 2, Ident ''s'']\<rparr>]\<rparr>]\<rparr>
       [''c'', ''s'', ''x'', ''y'']
     = Inr (''; generated by celc.py\<newline>''
            @ ''section .data\<newline>''
            @ ''    fmt_dec db '' @ [CHR 0x22] @ ''%lld'' @ [CHR 0x22] @ '', 10, 0\<newline>''
            @ ''section .bss\<newline>''
            @ ''    c                resq 1\<newline>''
            @ ''    s                resq 1\<newline>''
            @ ''    x                resq 1\<newline>''
            @ ''    y                resq 1\<newline>''
            @ ''section .text\<newline>''
            @ ''    extern printf\<newline>''
            @ ''    global main\<newline>''
            @ ''\<newline>''
            @ ''main:\<newline>''
            @ ''    ; --- Gate [g] ---\<newline>''
            @ ''    mov     rax, [c]\<newline>''
            @ ''.Lloop0:\<newline>''
            @ ''    cmp     rax, 0\<newline>''
            @ ''    je      .Lend0\<newline>''
            @ ''    add     [s], 1\<newline>''
            @ ''    dec     rax\<newline>''
            @ ''    jmp     .Lloop0\<newline>''
            @ ''.Lend0:\<newline>''
            @ ''    mov     [c], rax\<newline>''
            @ ''    ; --- Gate [h] ---\<newline>''
            @ ''    mov     [c], 3\<newline>''
            @ ''    mov     rax, [c]\<newline>''
            @ ''.Lloop1:\<newline>''
            @ ''    cmp     rax, 0\<newline>''
            @ ''    je      .Lend1\<newline>''
            @ ''    add     [s], 2\<newline>''
            @ ''    dec     rax\<newline>''
            @ ''    jmp     .Lloop1\<newline>''
            @ ''.Lend1:\<newline>''
            @ ''    mov     [c], rax\<newline>''
            @ ''    xor     rax, rax\<newline>''
            @ ''    ret\<newline>'')"
proof -
  have h: "semantic \<lparr>blocks =
       [\<lparr>gate = ''g'', statements = [\<lparr>dest = ''x'', op = ''LOOP'', args = [Ident ''c'', Num 1, Ident ''s'']\<rparr>]\<rparr>,
        \<lparr>gate = ''h'', statements = [\<lparr>dest = ''c'', op = ''SET'', args = [Num 3]\<rparr>,
             \<lparr>dest = ''y'', op = ''LOOP'', args = [Ident ''c'', Num 2, Ident ''s'']\<rparr>]\<rparr>]\<rparr>
     = Inr [''c'', ''s'', ''x'', ''y'']"
    by code_simp
  have f: "concat (map statements (blocks \<lparr>blocks =
       [\<lparr>gate = ''g'', statements = [\<lparr>dest = ''x'', op = ''LOOP'', args = [Ident ''c'', Num 1, Ident ''s'']\<rparr>]\<rparr>,
        \<lparr>gate = ''h'', statements = [\<lparr>dest = ''c'', op = ''SET'', args = [Num 3]\<rparr>,
             \<lparr>dest = ''y'', op = ''LOOP'', args = [Ident ''c'', Num 2, Ident ''s'']\<rparr>]\<rparr>]\<rparr>))
     = [] @ \<lparr>dest = ''x'', op = ''LOOP'', args = [Ident ''c'', Num 1, Ident ''s'']\<rparr>
         # [\<lparr>dest = ''c'', op = ''SET'', args = [Num 3]\<rparr>]
         @ \<lparr>dest = ''y'', op = ''LOOP'', args = [Ident ''c'', Num 2, Ident ''s'']\<rparr> # []"
    by simp
  have e: "emit \<lparr>blocks =
       [\<lparr>gate = ''g'', statements = [\<lparr>dest = ''x'', op = ''LOOP'', args = [Ident ''c'', Num 1, Ident ''s'']\<rparr>]\<rparr>,
        \<lparr>gate = ''h'', statements = [\<lparr>dest = ''c'', op = ''SET'', args = [Num 3]\<rparr>,
             \<lparr>dest = ''y'', op = ''LOOP'', args = [Ident ''c'', Num 2, Ident ''s'']\<rparr>]\<rparr>]\<rparr>
       [''c'', ''s'', ''x'', ''y'']
     = Inr (''; generated by celc.py\<newline>''
            @ ''section .data\<newline>''
            @ ''    fmt_dec db '' @ [CHR 0x22] @ ''%lld'' @ [CHR 0x22] @ '', 10, 0\<newline>''
            @ ''section .bss\<newline>''
            @ ''    c                resq 1\<newline>''
            @ ''    s                resq 1\<newline>''
            @ ''    x                resq 1\<newline>''
            @ ''    y                resq 1\<newline>''
            @ ''section .text\<newline>''
            @ ''    extern printf\<newline>''
            @ ''    global main\<newline>''
            @ ''\<newline>''
            @ ''main:\<newline>''
            @ ''    ; --- Gate [g] ---\<newline>''
            @ ''    mov     rax, [c]\<newline>''
            @ ''.Lloop0:\<newline>''
            @ ''    cmp     rax, 0\<newline>''
            @ ''    je      .Lend0\<newline>''
            @ ''    add     [s], 1\<newline>''
            @ ''    dec     rax\<newline>''
            @ ''    jmp     .Lloop0\<newline>''
            @ ''.Lend0:\<newline>''
            @ ''    mov     [c], rax\<newline>''
            @ ''    ; --- Gate [h] ---\<newline>''
            @ ''    mov     [c], 3\<newline>''
            @ ''    mov     rax, [c]\<newline>''
            @ ''.Lloop1:\<newline>''
            @ ''    cmp     rax, 0\<newline>''
            @ ''    je      .Lend1\<newline>''
            @ ''    add     [s], 2\<newline>''
            @ ''    dec     rax\<newline>''
            @ ''    jmp     .Lloop1\<newline>''
            @ ''.Lend1:\<newline>''
            @ ''    mov     [c], rax\<newline>''
            @ ''    xor     rax, rax\<newline>''
            @ ''    ret\<newline>'')"
    by code_simp
  have c: "\<exists>n1 n2 l1 e1 l2 e2 A B C c1 t1 a1 c2 t2 a2.
      n1 = length (filter (\<lambda>x. op x = ''LOOP'') ([] :: statement list))
    \<and> n2 = n1 + 1 + length (filter (\<lambda>x. op x = ''LOOP'') [\<lparr>dest = ''c'', op = ''SET'', args = [Num 3]\<rparr>])
    \<and> l1 = ''.Lloop'' @ str_int (int n1) \<and> e1 = ''.Lend'' @ str_int (int n1)
    \<and> l2 = ''.Lloop'' @ str_int (int n2) \<and> e2 = ''.Lend'' @ str_int (int n2)
    \<and> args \<lparr>dest = ''x'', op = ''LOOP'', args = [Ident ''c'', Num 1, Ident ''s'']\<rparr> = [c1, t1, a1] \<and> args \<lparr>dest = ''y'', op = ''LOOP'', args = [Ident ''c'', Num 2, Ident ''s'']\<rparr> = [c2, t2, a2]
    \<and> emit 
\<lparr>blocks =
       [\<lparr>gate = ''g'', statements = [\<lparr>dest = ''x'', op = ''LOOP'', args = [Ident ''c'', Num 1, Ident ''s'']\<rparr>]\<rparr>,
        \<lparr>gate = ''h'', statements = [\<lparr>dest = ''c'', op = ''SET'', args = [Num 3]\<rparr>,
             \<lparr>dest = ''y'', op = ''LOOP'', args = [Ident ''c'', Num 2, Ident ''s'']\<rparr>]\<rparr>]\<rparr>
           [''c'', ''s'', ''x'', ''y''] = Inr (
         emit_header [''c'', ''s'', ''x'', ''y''] @ A
         @ ''    mov     rax, ['' @ fmt_arg c1 @ '']\<newline>'' @ l1 @ '':\<newline>    cmp     rax, 0\<newline>    je      '' @ e1
           @ ''\<newline>    add     ['' @ fmt_arg a1 @ ''], '' @ val t1 @ ''\<newline>    dec     rax\<newline>    jmp     '' @ l1
           @ ''\<newline>'' @ e1 @ '':\<newline>    mov     ['' @ fmt_arg c1 @ ''], rax\<newline>''
         @ B
         @ ''    mov     rax, ['' @ fmt_arg c2 @ '']\<newline>'' @ l2 @ '':\<newline>    cmp     rax, 0\<newline>    je      '' @ e2
           @ ''\<newline>    add     ['' @ fmt_arg a2 @ ''], '' @ val t2 @ ''\<newline>    dec     rax\<newline>    jmp     '' @ l2
           @ ''\<newline>'' @ e2 @ '':\<newline>    mov     ['' @ fmt_arg c2 @ ''], rax\<newline>''
         @ C @ ''    xor     rax, rax\<newline>    ret\<newline>'')
    \<and> l1 \<noteq> l2 \<and> e1 \<noteq> e2 \<and> l1 \<noteq> e2 \<and> e1 \<noteq> l2"
    by (rule loop_labels_distinct_and_reproducible [OF h f]) simp_all
  from h c e show ?thesis by (intro conjI)
qed

subsection \<open>The lexer at a character outside the grammar\<close>

lemma unmatched_iff:
  "unmatched c = (\<not> is_digit c \<and> \<not> is_ident_start c \<and> c \<notin> set ''{}[]:;,''
                  \<and> \<not> is_newline c \<and> \<not> is_skip c)"
  by (simp add: unmatched_def match_at.simps)

lemma match_at_unmatched: "unmatched c \<Longrightarrow> match_at c cs = (''MISMATCH'', [c])"
  by (simp add: unmatched_iff match_at.simps)

lemma match_at_before_unmatched:
  "unmatched c \<Longrightarrow> match_at x (xs @ c # rest) = match_at x xs"
  by (simp add: unmatched_iff match_at.simps takeWhile_tail is_ident_char_def)


lemma match_at_forms:
  "match_at x xs = (ty, v) \<Longrightarrow>
     (is_digit x \<and> ty = ''NUMBER'' \<and> v = x # takeWhile is_digit xs)
   \<or> (is_ident_start x \<and> ty = ''IDENT'' \<and> v = x # takeWhile is_ident_char xs)
   \<or> (x \<in> set ''{}[]:;,'' \<and> ty \<noteq> ''NEWLINE'' \<and> ty \<noteq> ''SKIP'' \<and> ty \<noteq> ''MISMATCH''
        \<and> v = [x])
   \<or> (is_newline x \<and> ty = ''NEWLINE'' \<and> v = x # takeWhile is_newline xs)
   \<or> (is_skip x \<and> ty = ''SKIP'' \<and> v = x # takeWhile is_skip xs)
   \<or> (unmatched x \<and> ty = ''MISMATCH'' \<and> v = [x])"
  unfolding match_at.simps unmatched_iff
  by (auto split: if_splits)

lemma run_split: "(x # takeWhile P xs) @ drop (length (x # takeWhile P xs)) (x # xs) = x # xs"
  by (simp add: dropWhile_eq_drop [symmetric])

lemma run_length: "length (x # takeWhile P xs) \<le> length (x # xs)"
  by (simp add: length_takeWhile_le)

lemma run_no_newline:
  "\<not> P newline \<Longrightarrow> x \<noteq> newline \<Longrightarrow> newline \<notin> set (x # takeWhile P xs)"
  by (auto dest: set_takeWhileD)

lemma newline_classes:
  "\<not> is_digit newline" "\<not> is_ident_start newline" "\<not> is_ident_char newline"
  "\<not> is_skip newline" "newline \<notin> set ''{}[]:;,''"
  by code_simp+

lemma newline_run:
  "count_list (takeWhile is_newline xs) newline = length (takeWhile is_newline xs)"
  by (induction xs) (simp_all add: is_newline_def)

lemma newline_run_last: "last (newline # takeWhile is_newline xs) = newline"
  by (induction xs) (simp_all add: is_newline_def)

lemma match_at_matched:
  assumes "\<not> unmatched x" and "match_at x xs = (ty, v)"
  shows "ty \<noteq> ''MISMATCH'' \<and> v \<noteq> [] \<and> v @ drop (length v) (x # xs) = x # xs
         \<and> length v \<le> length (x # xs)
         \<and> (if ty = ''NEWLINE'' then count_list v newline = length v \<and> last v = newline
             else newline \<notin> set v)"
  using match_at_forms [OF assms(2)]
proof (elim disjE conjE, goal_cases)
  case num: 1
  from num(1) newline_classes(1) have "x \<noteq> newline" by metis
  from run_no_newline [where P = is_digit, OF newline_classes(1) this]
  have "newline \<notin> set v" unfolding num(3) .
  with num(2) run_split [of x is_digit xs] run_length [of x is_digit xs] show ?case
    unfolding num(3) by simp
next
  case ident: 2
  from ident(1) newline_classes(2) have "x \<noteq> newline" by metis
  from run_no_newline [where P = is_ident_char, OF newline_classes(3) this]
  have "newline \<notin> set v" unfolding ident(3) .
  with ident(2) run_split [of x is_ident_char xs] run_length [of x is_ident_char xs]
  show ?case
    unfolding ident(3) by simp
next
  case punct: 3
  from punct(1) newline_classes(5) have "x \<noteq> newline" by metis
  with punct show ?case by simp
next
  case nl: 4
  then have "x = newline" by (simp add: is_newline_def)
  with nl(2) run_split [of x is_newline xs] run_length [of x is_newline xs]
    newline_run [of xs] newline_run_last [of xs]
  show ?case
    unfolding nl(3) by simp
next
  case skip: 5
  from skip(1) newline_classes(4) have "x \<noteq> newline" by metis
  from run_no_newline [where P = is_skip, OF newline_classes(4) this]
  have "newline \<notin> set v" unfolding skip(3) .
  with skip(2) run_split [of x is_skip xs] run_length [of x is_skip xs] show ?case
    unfolding skip(3) by simp
next
  case 6
  with assms(1) show ?case by simp
qed

lemma lex_from_step:
  "match_at x xs = (ty, v) \<Longrightarrow>
   lex_from pos line ls (x # xs) =
     (if ty = ''NEWLINE'' then
        lex_from (pos + int (length v)) (line + int (count_list v newline))
                 (pos + int (length v)) (drop (length v) (x # xs))
      else if ty = ''SKIP'' then
        lex_from (pos + int (length v)) line ls (drop (length v) (x # xs))
      else if ty = ''MISMATCH'' then
        ([], Some (SyntaxError (''Unexpected char '' @ repr_char (hd v) @ '' @ ''
                                @ str_int line @ '':'' @ str_int (pos - ls + 1))))
      else
        (case lex_from (pos + int (length v)) line ls (drop (length v) (x # xs)) of
           (ts, e) \<Rightarrow> (Token ty v line (pos - ls + 1) # ts, e)))"
  by (simp add: Let_def del: drop_Suc_Cons)

lemma col_after_newline_run:
  assumes "v \<noteq> []" "last v = newline"
  shows "col_after pos ls (v @ xs) = col_after (pos + int (length v)) (pos + int (length v)) xs"
proof (cases "newline \<in> set xs")
  case True
  then have "takeWhile (\<lambda>y. y \<noteq> newline) (rev xs @ rev v) = takeWhile (\<lambda>y. y \<noteq> newline) (rev xs)"
    by (intro takeWhile_append1 [of newline]) simp_all
  with True show ?thesis by (simp add: col_after_def)
next
  case False
  then have "takeWhile (\<lambda>y. y \<noteq> newline) (rev xs @ rev v)
               = rev xs @ takeWhile (\<lambda>y. y \<noteq> newline) (rev v)"
    by (intro takeWhile_append2) auto
  moreover from assms have "takeWhile (\<lambda>y. y \<noteq> newline) (rev v) = []"
    by (cases v rule: rev_cases) simp_all
  moreover from assms have "newline \<in> set v"
    by (metis last_in_set)
  ultimately show ?thesis using False by (simp add: col_after_def)
qed

lemma col_after_other:
  assumes "newline \<notin> set v"
  shows "col_after pos ls (v @ xs) = col_after (pos + int (length v)) ls xs"
proof (cases "newline \<in> set xs")
  case True
  then have "takeWhile (\<lambda>y. y \<noteq> newline) (rev xs @ rev v) = takeWhile (\<lambda>y. y \<noteq> newline) (rev xs)"
    by (intro takeWhile_append1 [of newline]) simp_all
  with True show ?thesis by (simp add: col_after_def)
next
  case False
  with assms show ?thesis by (simp add: col_after_def)
qed

lemma lex_from_mismatch:
  assumes "\<forall>x\<in>set pre. \<not> unmatched x" and "unmatched c"
  shows "lex_from pos line ls (pre @ c # rest) =
           (fst (lex_from pos line ls pre),
            Some (SyntaxError (''Unexpected char '' @ repr_char c @ '' @ ''
                               @ str_int (line + int (count_list pre newline)) @ '':''
                               @ str_int (col_after pos ls pre))))
         \<and> snd (lex_from pos line ls pre) = None"
  using assms(1)
proof (induction "length pre" arbitrary: pre pos line ls rule: less_induct)
  case less
  show ?case
  proof (cases pre)
    case Nil
    from lex_from_step [where pos = pos and line = line and ls = ls,
            OF match_at_unmatched [OF assms(2), of rest]]
    show ?thesis
      by (simp add: Nil col_after_def)
  next
    case (Cons x xs)
    obtain ty v where m: "match_at x xs = (ty, v)"
      by (cases "match_at x xs")
    from less.prems Cons have nx: "\<not> unmatched x" by simp
    from match_at_matched [OF nx m] have ty: "ty \<noteq> ''MISMATCH''" and v: "v \<noteq> []"
      and sp: "v @ drop (length v) (x # xs) = x # xs"
      and le: "length v \<le> length (x # xs)"
      and nl: "if ty = ''NEWLINE'' then count_list v newline = length v \<and> last v = newline
               else newline \<notin> set v"
      by simp_all
    define xs' where "xs' = drop (length v) (x # xs)"
    from sp have pre: "pre = v @ xs'" by (simp add: xs'_def Cons)
    with v have len: "length xs' < length pre" by simp
    from less.prems pre have un: "\<forall>y\<in>set xs'. \<not> unmatched y" by simp
    note IH = less.hyps [OF len un]
    from m have m': "match_at x (xs @ c # rest) = (ty, v)"
      by (simp add: match_at_before_unmatched [OF assms(2)])
    from le have dr: "drop (length v) (x # xs @ c # rest) = xs' @ c # rest"
      unfolding xs'_def by (metis append_Cons drop_append diff_is_0_eq drop0)
    have cnt: "count_list pre newline = count_list v newline + count_list xs' newline"
      by (simp add: pre)
    note s1 = lex_from_step [where pos = pos and line = line and ls = ls, OF m', unfolded dr]
    note s2 = lex_from_step [where pos = pos and line = line and ls = ls, OF m, folded xs'_def]
    show ?thesis
    proof (cases "ty = ''NEWLINE''")
      case True
      with nl have "last v = newline" by simp
      from col_after_newline_run [OF v this, of pos ls xs']
      have col: "col_after pos ls pre = col_after (pos + int (length v)) (pos + int (length v)) xs'"
        by (simp add: pre)
      from IH [of "pos + int (length v)" "line + int (count_list v newline)" "pos + int (length v)"]
      show ?thesis
        unfolding Cons [symmetric] append_Cons [symmetric]
        by (simp add: s1 [unfolded Cons [symmetric] append_Cons [symmetric]]
              s2 [unfolded Cons [symmetric]] True col cnt add.assoc)
    next
      case False
      with nl have "newline \<notin> set v" by simp
      from col_after_other [OF this, of pos ls xs']
      have col: "col_after pos ls pre = col_after (pos + int (length v)) ls xs'"
        by (simp add: pre)
      from False nl have c0: "count_list v newline = 0" by simp
      from IH [of "pos + int (length v)" line ls]
      show ?thesis
        unfolding Cons [symmetric] append_Cons [symmetric]
        by (auto simp: s1 [unfolded Cons [symmetric] append_Cons [symmetric]]
              s2 [unfolded Cons [symmetric]] False ty col cnt c0 split: prod.splits)
    qed
  qed
qed

lemma col_after_start:
  "col_after 0 0 pre = int (length (takeWhile (\<lambda>y. y \<noteq> newline) (rev pre))) + 1"
proof (cases "newline \<in> set pre")
  case True
  then show ?thesis by (simp add: col_after_def)
next
  case False
  then have "takeWhile (\<lambda>y. y \<noteq> newline) (rev pre) = rev pre"
    by (intro takeWhile_eq_all_conv [THEN iffD2]) auto
  then have "length (takeWhile (\<lambda>y. y \<noteq> newline) (rev pre)) = length pre"
    by (simp only: length_rev)
  with False show ?thesis by (simp add: col_after_def)
qed

text \<open>
  Claim C6. Let \<open>c\<close> be the first character of the source text that no pattern but
  \<^verbatim>\<open>MISMATCH\<close> matches, \<open>pre\<close> the text before it and \<open>rest\<close> the text after it.
  Then \<^verbatim>\<open>lex\<close> yields the tokens that it yields on \<open>pre\<close> alone, where it raises
  nothing, and then raises the lexical error for \<open>c\<close> with the line 1 + the number
  of line breaks in \<open>pre\<close> and the column 1 + the number of characters of \<open>pre\<close> after
  its last line break. Nothing of \<open>rest\<close> is read: the result is the same for every
  \<open>rest\<close>, and \<^verbatim>\<open>list(lex(src))\<close> is that error.
\<close>

theorem lexical_error_at_first_unmatched_character:
  assumes "\<forall>x\<in>set pre. \<not> unmatched x" and "unmatched c"
  shows "lex (pre @ c # rest) =
           (fst (lex pre),
            Some (SyntaxError (''Unexpected char '' @ repr_char c @ '' @ ''
                    @ str_int (1 + int (count_list pre newline)) @ '':''
                    @ str_int (1 + int (length (takeWhile (\<lambda>y. y \<noteq> newline) (rev pre)))))))
         \<and> snd (lex pre) = None
         \<and> lex_list (pre @ c # rest) =
             Inl (SyntaxError (''Unexpected char '' @ repr_char c @ '' @ ''
                    @ str_int (1 + int (count_list pre newline)) @ '':''
                    @ str_int (1 + int (length (takeWhile (\<lambda>y. y \<noteq> newline) (rev pre))))))"
  using lex_from_mismatch [OF assms, of 0 1 0 rest]
  by (simp add: lex_def lex_list_def col_after_start add.commute)

theorem lexical_error_at_first_unmatched_character_witness:
  "lex (''ab\<newline> x1'' @ CHR ''@'' # ''y;'') =
           (fst (lex ''ab\<newline> x1''),
            Some (SyntaxError (''Unexpected char '' @ repr_char CHR ''@'' @ '' @ ''
                    @ str_int (1 + int (count_list ''ab\<newline> x1'' newline)) @ '':''
                    @ str_int (1 + int (length (takeWhile (\<lambda>y. y \<noteq> newline) (rev ''ab\<newline> x1'')))))))
   \<and> snd (lex ''ab\<newline> x1'') = None
   \<and> lex_list (''ab\<newline> x1'' @ CHR ''@'' # ''y;'') =
             Inl (SyntaxError (''Unexpected char '' @ repr_char CHR ''@'' @ '' @ ''
                    @ str_int (1 + int (count_list ''ab\<newline> x1'' newline)) @ '':''
                    @ str_int (1 + int (length (takeWhile (\<lambda>y. y \<noteq> newline) (rev ''ab\<newline> x1''))))))
   \<and> lex ''ab\<newline> x1@y;'' =
           ([Token ''IDENT'' ''ab'' 1 1, Token ''IDENT'' ''x1'' 2 2],
            Some (SyntaxError (''Unexpected char '' @ [CHR 0x27, CHR ''@'', CHR 0x27] @ '' @ 2:4'')))"
proof -
  have h1: "\<forall>x\<in>set ''ab\<newline> x1''. \<not> unmatched x"
    by code_simp
  have h2: "unmatched CHR ''@''"
    by code_simp
  have e: "lex ''ab\<newline> x1@y;'' =
           ([Token ''IDENT'' ''ab'' 1 1, Token ''IDENT'' ''x1'' 2 2],
            Some (SyntaxError (''Unexpected char '' @ [CHR 0x27, CHR ''@'', CHR 0x27] @ '' @ 2:4'')))"
    by code_simp
  from lexical_error_at_first_unmatched_character [OF h1 h2, of "''y;''"] e
  show ?thesis by (intro conjI) (elim conjE, assumption)+
qed

end
